theory Spec2Isabelle
  imports Complex_Main "HOL-Library.AList" "HOL-Library.Sublist"
begin

section \<open>Multi-instance detection supervisor: a shallow embedding\<close>

text \<open>
  The repository holds three scripts that each launch several inference workers on one
  accelerator and track their throughput:
  \<^item> \<^verbatim>\<open>multi_instance_detection.py\<close> (threads, a module-level registry of callback
    objects, a dashboard thread, a health loop in \<^verbatim>\<open>main\<close>),
  \<^item> \<^verbatim>\<open>multi_instance_yolo11l.py\<close> (one process per worker),
  \<^item> \<^verbatim>\<open>multi_instance_detection_old.py\<close> (one pipeline with several branches).

  Names without a suffix belong to the first script; the suffix \<open>_y\<close> marks the second
  and \<open>_o\<close> the third. Readings of \<^verbatim>\<open>time.time()\<close> are parameters of the functions
  that take them; Python floats are modelled as real numbers with exact arithmetic;
  the instance ids come from \<^verbatim>\<open>range(num_instances)\<close> and are natural numbers.
  Mutation of an object is explicit state passing; \<^verbatim>\<open>print\<close> is a list of printed lines.
\<close>

subsection \<open>Python strings\<close>

text \<open>\<^verbatim>\<open>str(n)\<close> for a non-negative integer: its decimal digits.\<close>

definition digit_char :: "nat \<Rightarrow> char" where
  "digit_char d = ''0123456789'' ! d"

function str_nat :: "nat \<Rightarrow> string" where
  "str_nat n = (if n < 10 then [digit_char n]
                else str_nat (n div 10) @ [digit_char (n mod 10)])"
  by pat_completeness auto
termination
  by (relation "measure id") auto

declare str_nat.simps [simp del]

text \<open>
  \<^verbatim>\<open>s.replace(old, new)\<close>: every occurrence of \<open>old\<close>, found from left to right without
  overlap, is replaced by \<open>new\<close>. With an empty \<open>old\<close> Python inserts \<open>new\<close> before
  every character and at the end.
\<close>

function str_replace :: "string \<Rightarrow> string \<Rightarrow> string \<Rightarrow> string" where
  "str_replace old new [] = (if old = [] then new else [])"
| "str_replace old new (c # cs) =
     (if old = [] then new @ c # str_replace old new cs
      else if prefix old (c # cs) then new @ str_replace old new (drop (length old) (c # cs))
      else c # str_replace old new cs)"
  by pat_completeness auto
termination
  by (relation "measure (\<lambda>(old, new, s). length s)") auto

text \<open>\<^verbatim>\<open>pat in s\<close>: the string \<open>pat\<close> occurs in \<open>s\<close>.\<close>

fun occurs :: "string \<Rightarrow> string \<Rightarrow> bool" where
  "occurs pat [] = (pat = [])"
| "occurs pat (c # cs) = (prefix pat (c # cs) \<or> occurs pat cs)"

subsection \<open>The callback objects and their rate estimators\<close>

text \<open>
  The base class \<^verbatim>\<open>app_callback_class\<close> is imported from the \<^verbatim>\<open>hailo_apps\<close> package:
  a frame counter that starts at 0, \<^verbatim>\<open>increment()\<close> adds one, \<^verbatim>\<open>get_count()\<close> reads it.
\<close>

record app_callback_class =
  frame_count :: nat

definition increment :: "'a app_callback_class_scheme \<Rightarrow> 'a app_callback_class_scheme" where
  "increment self = self\<lparr>frame_count := frame_count self + 1\<rparr>"

definition get_count :: "'a app_callback_class_scheme \<Rightarrow> nat" where
  "get_count self = frame_count self"

text \<open>\<^verbatim>\<open>EnhancedInstanceCallback\<close> of \<^verbatim>\<open>multi_instance_detection.py\<close>.\<close>

record EnhancedInstanceCallback = app_callback_class +
  instance_id :: nat
  start_time :: real
  last_fps_time :: real
  fps_frame_count :: nat
  current_fps :: real
  detection_count :: nat
  total_detections :: nat
  frame_times :: "real list"

text \<open>The constructor reads the clock twice, for \<open>start_time\<close> and for \<open>last_fps_time\<close>.\<close>

definition EnhancedInstanceCallback_init :: "nat \<Rightarrow> real \<Rightarrow> real \<Rightarrow> EnhancedInstanceCallback" where
  "EnhancedInstanceCallback_init iid t_start t_last =
     \<lparr>frame_count = 0, instance_id = iid, start_time = t_start, last_fps_time = t_last,
      fps_frame_count = 0, current_fps = 0, detection_count = 0, total_detections = 0,
      frame_times = []\<rparr>"

text \<open>
  \<^verbatim>\<open>calculate_fps\<close>: append the time, drop the oldest entry beyond 60 (\<^verbatim>\<open>pop(0)\<close>),
  recompute the rate when at least two entries span a positive time, and return the
  stored rate. The result is the returned rate and the updated object.
\<close>

definition calculate_fps :: "real \<Rightarrow> EnhancedInstanceCallback \<Rightarrow> real \<times> EnhancedInstanceCallback" where
  "calculate_fps current_time self =
     (let appended = frame_times self @ [current_time];
          kept = (if length appended > 60 then tl appended else appended);
          fps = (if length kept \<ge> 2
                 then (let time_span = last kept - hd kept
                       in if time_span > 0 then real (length kept - 1) / time_span
                          else current_fps self)
                 else current_fps self)
      in (fps, self\<lparr>frame_times := kept, current_fps := fps\<rparr>))"

text \<open>A sequence of calls, one per timestamp, oldest first.\<close>

fun record_all :: "real list \<Rightarrow> EnhancedInstanceCallback \<Rightarrow> EnhancedInstanceCallback" where
  "record_all [] self = self"
| "record_all (t # ts) self = record_all ts (snd (calculate_fps t self))"

text \<open>\<^verbatim>\<open>MultiInstanceCallback\<close> of \<^verbatim>\<open>multi_instance_detection_old.py\<close>: a window of 30.\<close>

record MultiInstanceCallback_o = app_callback_class +
  instance_id_o :: nat
  last_time_o :: real
  frame_times_o :: "real list"
  fps_o :: real
  detection_count_o :: nat

definition MultiInstanceCallback_o_init :: "nat \<Rightarrow> real \<Rightarrow> MultiInstanceCallback_o" where
  "MultiInstanceCallback_o_init iid t_last =
     \<lparr>frame_count = 0, instance_id_o = iid, last_time_o = t_last, frame_times_o = [],
      fps_o = 0, detection_count_o = 0\<rparr>"

definition calculate_fps_o :: "real \<Rightarrow> MultiInstanceCallback_o \<Rightarrow> real \<times> MultiInstanceCallback_o" where
  "calculate_fps_o current_time self =
     (let appended = frame_times_o self @ [current_time];
          kept = (if length appended > 30 then tl appended else appended);
          fps = (if length kept \<ge> 2
                 then (let time_diff = last kept - hd kept
                       in if time_diff > 0 then real (length kept - 1) / time_diff
                          else fps_o self)
                 else fps_o self)
      in (fps, self\<lparr>frame_times_o := kept, fps_o := fps\<rparr>))"

fun record_all_o :: "real list \<Rightarrow> MultiInstanceCallback_o \<Rightarrow> MultiInstanceCallback_o" where
  "record_all_o [] self = self"
| "record_all_o (t # ts) self = record_all_o ts (snd (calculate_fps_o t self))"

text \<open>
  \<^verbatim>\<open>MultiInstanceCallback\<close> of \<^verbatim>\<open>multi_instance_yolo11l.py\<close>: no window; the rate is
  recomputed on every 30th call from the time since the previous recomputation.
\<close>

record MultiInstanceCallback_y = app_callback_class +
  instance_id_y :: nat
  start_time_y :: real
  last_fps_time_y :: real
  fps_frame_count_y :: nat
  current_fps_y :: real
  detection_count_y :: nat
  total_detections_y :: nat

definition MultiInstanceCallback_y_init :: "nat \<Rightarrow> real \<Rightarrow> real \<Rightarrow> MultiInstanceCallback_y" where
  "MultiInstanceCallback_y_init iid t_start t_last =
     \<lparr>frame_count = 0, instance_id_y = iid, start_time_y = t_start, last_fps_time_y = t_last,
      fps_frame_count_y = 0, current_fps_y = 0, detection_count_y = 0,
      total_detections_y = 0\<rparr>"

definition calculate_fps_y :: "real \<Rightarrow> MultiInstanceCallback_y \<Rightarrow> real \<times> MultiInstanceCallback_y" where
  "calculate_fps_y current_time self =
     (let counted = self\<lparr>fps_frame_count_y := fps_frame_count_y self + 1\<rparr>
      in if fps_frame_count_y counted \<ge> 30
         then (let time_diff = current_time - last_fps_time_y counted;
                   rated = (if time_diff > 0
                            then counted\<lparr>current_fps_y := real (fps_frame_count_y counted) / time_diff\<rparr>
                            else counted);
                   reset = rated\<lparr>fps_frame_count_y := 0, last_fps_time_y := current_time\<rparr>
               in (current_fps_y reset, reset))
         else (current_fps_y counted, counted))"

fun record_all_y :: "real list \<Rightarrow> MultiInstanceCallback_y \<Rightarrow> MultiInstanceCallback_y" where
  "record_all_y [] self = self"
| "record_all_y (t # ts) self = record_all_y ts (snd (calculate_fps_y t self))"

subsection \<open>The per-frame callbacks\<close>

text \<open>
  What the callback sees of the \<^verbatim>\<open>hailo\<close> bindings: \<^verbatim>\<open>info.get_buffer()\<close> is \<open>None\<close> or
  a buffer; inside the \<^verbatim>\<open>try\<close> block the loop over
  \<^verbatim>\<open>roi.get_objects_typed(hailo.HAILO_DETECTION)\<close> completes its body for the detections
  in \<open>detections\<close> and then either ends or is cut short by the exception in \<open>fault\<close>
  (raised by \<^verbatim>\<open>get_roi_from_buffer\<close> when \<open>detections\<close> is empty).
\<close>

record buffer =
  detections :: "(string \<times> real) list"
  fault :: "string option"

text \<open>The values of GStreamer's \<^verbatim>\<open>Gst.PadProbeReturn\<close>.\<close>

datatype PadProbeReturn = DROP | OK | REMOVE | PASS | HANDLED

text \<open>Everything the scripts print, by the statement that prints it.\<close>

datatype print_out =
    DetectionError nat string
  | Status nat nat real real nat nat
  | Starting nat
  | ErrorIn nat string
  | Warning nat nat
  | ShuttingDown

text \<open>The body of the \<^verbatim>\<open>for\<close> loop: collect the detection, count it.\<close>

fun count_detections ::
  "(string \<times> real) list \<Rightarrow> (string \<times> real) list \<times> EnhancedInstanceCallback
   \<Rightarrow> (string \<times> real) list \<times> EnhancedInstanceCallback" where
  "count_detections [] acc = acc"
| "count_detections (d # ds) (detections_this_frame, user_data) =
     count_detections ds
       (detections_this_frame @ [d],
        user_data\<lparr>total_detections := total_detections user_data + 1\<rparr>)"

text \<open>
  \<^verbatim>\<open>enhanced_callback\<close> of instance \<open>iid\<close>; \<open>t_frame\<close> is the clock read by
  \<^verbatim>\<open>calculate_fps\<close>, \<open>t_status\<close> the one read for the status line.
\<close>

definition enhanced_callback ::
  "nat \<Rightarrow> real \<Rightarrow> real \<Rightarrow> buffer option \<Rightarrow> EnhancedInstanceCallback
   \<Rightarrow> (PadProbeReturn \<times> print_out list) \<times> EnhancedInstanceCallback" where
  "enhanced_callback iid t_frame t_status info_buffer user_data =
     (let counted = increment user_data;
          fps = fst (calculate_fps t_frame counted);
          timed = snd (calculate_fps t_frame counted)
      in case info_buffer of
           None \<Rightarrow> ((OK, []), timed)
         | Some buffer \<Rightarrow>
             (let (detections_this_frame, tallied) = count_detections (detections buffer) ([], timed);
                  errors = (case fault buffer of
                              None \<Rightarrow> []
                            | Some e \<Rightarrow> if get_count tallied mod 100 = 0
                                        then [DetectionError iid e] else []);
                  final = tallied\<lparr>detection_count := length detections_this_frame\<rparr>;
                  status = (if get_count final mod 90 = 0
                            then (let runtime = t_status - start_time final;
                                      avg_fps = (if runtime > 0
                                                 then real (get_count final) / runtime else 0)
                                  in [Status iid (get_count final) fps avg_fps
                                        (detection_count final) (total_detections final)])
                            else [])
              in ((OK, errors @ status), final)))"

text \<open>\<^verbatim>\<open>app_callback\<close> of \<^verbatim>\<open>multi_instance_yolo11l.py\<close>.\<close>

fun count_detections_y ::
  "(string \<times> real) list \<Rightarrow> (string \<times> real) list \<times> MultiInstanceCallback_y
   \<Rightarrow> (string \<times> real) list \<times> MultiInstanceCallback_y" where
  "count_detections_y [] acc = acc"
| "count_detections_y (d # ds) (detection_info, user_data) =
     count_detections_y ds
       (detection_info @ [d],
        user_data\<lparr>total_detections_y := total_detections_y user_data + 1\<rparr>)"

definition app_callback_y ::
  "nat \<Rightarrow> real \<Rightarrow> real \<Rightarrow> buffer option \<Rightarrow> MultiInstanceCallback_y
   \<Rightarrow> (PadProbeReturn \<times> print_out list) \<times> MultiInstanceCallback_y" where
  "app_callback_y iid t_frame t_status info_buffer user_data =
     (let counted = increment user_data;
          fps = fst (calculate_fps_y t_frame counted);
          timed = snd (calculate_fps_y t_frame counted)
      in case info_buffer of
           None \<Rightarrow> ((OK, []), timed)
         | Some buffer \<Rightarrow>
             (let (detection_info, tallied) = count_detections_y (detections buffer) ([], timed);
                  errors = (case fault buffer of
                              None \<Rightarrow> []
                            | Some e \<Rightarrow> [DetectionError iid e]);
                  final = tallied\<lparr>detection_count_y := length detection_info\<rparr>;
                  status = (if get_count final mod 60 = 0
                            then (let runtime = t_status - start_time_y final;
                                      avg_fps = (if runtime > 0
                                                 then real (get_count final) / runtime else 0)
                                  in [Status iid (get_count final) fps avg_fps
                                        (detection_count_y final) (total_detections_y final)])
                            else [])
              in ((OK, errors @ status), final)))"

subsection \<open>The registry of callback objects\<close>

text \<open>
  \<^verbatim>\<open>instance_callbacks\<close>, the module-level dictionary of \<^verbatim>\<open>multi_instance_detection.py\<close>,
  as an association list in insertion order; an assignment to a key replaces the value
  in place or appends a new entry, which keeps the keys distinct.
\<close>

type_synonym registry = "(nat \<times> EnhancedInstanceCallback) list"

text \<open>
  \<^verbatim>\<open>YOLOv11lDetectionApp.__init__\<close>: a fresh callback object is made and stored under the
  instance id. The statements that follow (the parent constructor, the model path, the
  thresholds) do not touch the registry.
\<close>

definition YOLOv11lDetectionApp_init :: "nat \<Rightarrow> real \<Rightarrow> real \<Rightarrow> registry \<Rightarrow> registry" where
  "YOLOv11lDetectionApp_init iid t_start t_last instance_callbacks =
     AList.update iid (EnhancedInstanceCallback_init iid t_start t_last) instance_callbacks"

text \<open>
  A frame arriving at the worker whose callback object is the registry entry \<open>iid\<close>: the
  callback mutates that object.
\<close>

definition on_frame :: "nat \<Rightarrow> real \<Rightarrow> real \<Rightarrow> buffer option \<Rightarrow> registry \<Rightarrow> registry" where
  "on_frame iid t_frame t_status info_buffer instance_callbacks =
     (case map_of instance_callbacks iid of
        None \<Rightarrow> instance_callbacks
      | Some user_data \<Rightarrow>
          AList.update iid (snd (enhanced_callback iid t_frame t_status info_buffer user_data))
            instance_callbacks)"

subsection \<open>Pipeline strings\<close>

text \<open>
  The accelerator partition of a worker is its \<^verbatim>\<open>vdevice-group-id\<close>: all three scripts
  compute it as the instance id plus one.
\<close>

definition vdevice_group_id :: "nat \<Rightarrow> nat" where
  "vdevice_group_id iid = iid + 1"

text \<open>
  \<^verbatim>\<open>YOLOv11lDetectionApp.get_pipeline_string\<close>: the pipeline string of the parent class
  (from \<^verbatim>\<open>hailo_apps\<close>, a parameter here) with the group id written after every
  \<^verbatim>\<open>hailonet\<close> element and, for every instance but 0, the display sink replaced.
\<close>

definition get_pipeline_string :: "string \<Rightarrow> nat \<Rightarrow> string" where
  "get_pipeline_string base_pipeline iid =
     (let modified_pipeline =
            str_replace ''hailonet ''
              (''hailonet vdevice-group-id='' @ str_nat (vdevice_group_id iid) @ '' '')
              base_pipeline
      in if iid > 0
         then str_replace ''fpsdisplaysink'' ''fakesink sync=false'' modified_pipeline
         else modified_pipeline)"

text \<open>
  The other two scripts assemble their pipelines from helper functions of \<^verbatim>\<open>hailo_apps\<close>,
  parameters here: what each returns for the arguments that vary between instances
  (the element name, and for the inference pipeline the group id).
\<close>

record helper_pipelines =
  SOURCE_PIPELINE :: "string \<Rightarrow> string"
  INFERENCE_PIPELINE :: "string \<Rightarrow> nat \<Rightarrow> string"
  USER_CALLBACK_PIPELINE :: string
  DISPLAY_PIPELINE :: string
  QUEUE :: "string \<Rightarrow> string"

text \<open>\<^verbatim>\<open>MultiInstanceDetectionApp.get_pipeline_string\<close> of \<^verbatim>\<open>multi_instance_yolo11l.py\<close>.\<close>

definition get_pipeline_string_y :: "helper_pipelines \<Rightarrow> nat \<Rightarrow> string" where
  "get_pipeline_string_y h iid =
     (let source_pipeline = SOURCE_PIPELINE h (''source_'' @ str_nat iid);
          inference_pipeline =
            INFERENCE_PIPELINE h (''inference_'' @ str_nat iid) (vdevice_group_id iid);
          user_callback_pipeline = USER_CALLBACK_PIPELINE h;
          display_pipeline =
            (if iid = 0 then DISPLAY_PIPELINE h
             else QUEUE h (''sink_queue_'' @ str_nat iid) @ '' ! fakesink sync=false'')
      in source_pipeline @ '' ! '' @ inference_pipeline @ '' ! '' @
         user_callback_pipeline @ '' ! '' @ display_pipeline)"

text \<open>
  \<^verbatim>\<open>create_single_source_multi_inference_pipeline\<close> of \<^verbatim>\<open>multi_instance_detection_old.py\<close>:
  one branch per instance behind a tee, joined by spaces.
\<close>

definition display_pipeline_o :: "helper_pipelines \<Rightarrow> nat \<Rightarrow> string" where
  "display_pipeline_o h i =
     (if i = 0 then DISPLAY_PIPELINE h
      else QUEUE h (''sink_queue_'' @ str_nat i) @ '' ! fakesink sync=false'')"

definition branch_o :: "helper_pipelines \<Rightarrow> nat \<Rightarrow> string" where
  "branch_o h i =
     ''input_tee. ! '' @ QUEUE h (''queue_to_inference_'' @ str_nat i) @ '' ! '' @
     INFERENCE_PIPELINE h (''inference_'' @ str_nat i) (vdevice_group_id i) @ '' ! '' @
     USER_CALLBACK_PIPELINE h @ '' ! '' @ display_pipeline_o h i"

fun join_space :: "string list \<Rightarrow> string" where
  "join_space [] = []"
| "join_space [x] = x"
| "join_space (x # y # ys) = x @ '' '' @ join_space (y # ys)"

definition create_single_source_multi_inference_pipeline :: "helper_pipelines \<Rightarrow> nat \<Rightarrow> string" where
  "create_single_source_multi_inference_pipeline h num_instances =
     join_space ((SOURCE_PIPELINE h ''main_source'' @ '' ! tee name=input_tee'')
                 # map (branch_o h) [0..<num_instances])"

subsection \<open>Workers and the supervising loops\<close>

text \<open>
  What the code outside the repository does to a worker: the rest of the constructor may
  raise, and \<^verbatim>\<open>app.run()\<close> keeps running, returns or raises. An exception is an instance
  of \<^verbatim>\<open>Exception\<close> or another \<^verbatim>\<open>BaseException\<close> (\<^verbatim>\<open>SystemExit\<close>, \<^verbatim>\<open>KeyboardInterrupt\<close>).
\<close>

datatype py_exception = Exception string | NonException string

datatype run_outcome = RunsOn | Returns | Raises py_exception

record app_behaviour =
  construct :: "py_exception option"
  run :: run_outcome

text \<open>A worker thread or process: still executing, ended, or killed by an exception.\<close>

datatype worker_state = Alive | Ended | Uncaught py_exception

text \<open>The handler \<^verbatim>\<open>except Exception as e\<close> of both runners.\<close>

fun except_Exception :: "nat \<Rightarrow> py_exception \<Rightarrow> worker_state \<times> print_out list" where
  "except_Exception iid (Exception msg) = (Ended, [Starting iid, ErrorIn iid msg])"
| "except_Exception iid (NonException msg) = (Uncaught (NonException msg), [Starting iid])"

text \<open>
  \<^verbatim>\<open>run_instance\<close> of \<^verbatim>\<open>multi_instance_detection.py\<close>: the constructor registers the
  callback object before the parent constructor runs.
\<close>

definition run_instance ::
  "nat \<Rightarrow> real \<Rightarrow> real \<Rightarrow> app_behaviour \<Rightarrow> registry \<Rightarrow> (worker_state \<times> print_out list) \<times> registry" where
  "run_instance iid t_start t_last env instance_callbacks =
     (let registered = YOLOv11lDetectionApp_init iid t_start t_last instance_callbacks
      in case construct env of
           Some e \<Rightarrow> (except_Exception iid e, registered)
         | None \<Rightarrow>
             (case run env of
                RunsOn \<Rightarrow> ((Alive, [Starting iid]), registered)
              | Returns \<Rightarrow> ((Ended, [Starting iid]), registered)
              | Raises e \<Rightarrow> (except_Exception iid e, registered)))"

text \<open>\<^verbatim>\<open>run_single_instance\<close> of \<^verbatim>\<open>multi_instance_yolo11l.py\<close>.\<close>

definition run_single_instance :: "nat \<Rightarrow> nat \<Rightarrow> app_behaviour \<Rightarrow> worker_state \<times> print_out list" where
  "run_single_instance iid total_instances env =
     (case construct env of
        Some e \<Rightarrow> except_Exception iid e
      | None \<Rightarrow>
          (case run env of
             RunsOn \<Rightarrow> (Alive, [Starting iid])
           | Returns \<Rightarrow> (Ended, [Starting iid])
           | Raises e \<Rightarrow> except_Exception iid e))"

text \<open>
  \<^verbatim>\<open>main\<close> of \<^verbatim>\<open>multi_instance_detection.py\<close>. The threads are named by the argument of
  their \<^verbatim>\<open>run_instance\<close>. After each \<^verbatim>\<open>sleep(1)\<close> the loop sees which threads are alive,
  or the operator's Ctrl+C ends it.
\<close>

datatype main_event = Second "nat list" | KeyboardInterrupt

datatype main_state = Looping | ShutDown | AllJoined

record supervisor =
  threads :: "nat list"
  printed :: "print_out list"

fun health_loop :: "nat \<Rightarrow> main_event list \<Rightarrow> supervisor \<Rightarrow> main_state \<times> supervisor" where
  "health_loop num_instances [] sv = (Looping, sv)"
| "health_loop num_instances (KeyboardInterrupt # later) sv =
     (ShutDown, sv\<lparr>printed := printed sv @ [ShuttingDown]\<rparr>)"
| "health_loop num_instances (Second alive # later) sv =
     (let alive_threads = filter (\<lambda>t. t \<in> set alive) (threads sv)
      in health_loop num_instances later
           (if length alive_threads < num_instances
            then sv\<lparr>printed := printed sv @ [Warning (length alive_threads) num_instances]\<rparr>
            else sv))"

definition launch :: "nat \<Rightarrow> nat list" where
  "launch num_instances = [0..<num_instances]"

definition main :: "main_event list \<Rightarrow> main_state \<times> supervisor" where
  "main events =
     (let num_instances = 4
      in health_loop num_instances events \<lparr>threads = launch num_instances, printed = []\<rparr>)"

text \<open>
  \<^verbatim>\<open>main\<close> of \<^verbatim>\<open>multi_instance_yolo11l.py\<close>: one process per instance, then a \<^verbatim>\<open>join\<close> of
  each in turn. A \<^verbatim>\<open>join\<close> returns when its process has ended, and never for a process
  that keeps running; \<open>interrupt\<close> says that the operator presses Ctrl+C while \<^verbatim>\<open>main\<close>
  is still waiting.
\<close>

fun join_all :: "worker_state list \<Rightarrow> bool" where
  "join_all [] = True"
| "join_all (Alive # ps) = False"
| "join_all (p # ps) = join_all ps"

definition main_y :: "(nat \<Rightarrow> app_behaviour) \<Rightarrow> bool \<Rightarrow> main_state" where
  "main_y env interrupt =
     (let num_instances = 4;
          processes = map (\<lambda>i. fst (run_single_instance i num_instances (env i)))
                        (launch num_instances)
      in if interrupt then ShutDown
         else if join_all processes then AllJoined
         else Looping)"

subsection \<open>The dashboard\<close>

datatype py_error = ZeroDivisionError | KeyError nat

definition truediv :: "real \<Rightarrow> real \<Rightarrow> py_error + real" where
  "truediv a b = (if b = 0 then Inl ZeroDivisionError else Inr (a / b))"

definition getitem :: "registry \<Rightarrow> nat \<Rightarrow> py_error + EnhancedInstanceCallback" where
  "getitem d k = (case map_of d k of None \<Rightarrow> Inl (KeyError k) | Some v \<Rightarrow> Inr v)"

datatype perf_indicator = Green | Yellow | Red

record instance_line =
  line_instance :: nat
  line_frames :: nat
  line_current_fps :: real
  line_avg_fps :: real
  line_detections :: nat
  line_indicator :: perf_indicator

record dashboard =
  lines :: "instance_line list"
  total_fps :: real
  total_frames :: nat
  total_detections_all :: nat

text \<open>
  The body of \<^verbatim>\<open>for instance_id in sorted(instance_callbacks.keys())\<close>; \<open>now i\<close> is the
  clock read while instance \<open>i\<close> is handled.
\<close>

fun monitor_instances ::
  "(nat \<Rightarrow> real) \<Rightarrow> registry \<Rightarrow> nat list \<Rightarrow> dashboard \<Rightarrow> py_error + dashboard" where
  "monitor_instances now instance_callbacks [] acc = Inr acc"
| "monitor_instances now instance_callbacks (iid # later) acc =
     (case getitem instance_callbacks iid of
        Inl e \<Rightarrow> Inl e
      | Inr callback \<Rightarrow>
          (let runtime = now iid - start_time callback
           in case (if runtime > 0 then truediv (real (get_count callback)) runtime else Inr 0) of
                Inl e \<Rightarrow> Inl e
              | Inr avg_fps \<Rightarrow>
                  monitor_instances now instance_callbacks later
                    \<lparr>lines = lines acc @
                       [\<lparr>line_instance = iid, line_frames = get_count callback,
                         line_current_fps = current_fps callback, line_avg_fps = avg_fps,
                         line_detections = total_detections callback,
                         line_indicator = (if avg_fps > 20 then Green
                                           else if avg_fps > 10 then Yellow else Red)\<rparr>],
                     total_fps = total_fps acc + avg_fps,
                     total_frames = total_frames acc + get_count callback,
                     total_detections_all = total_detections_all acc + total_detections callback\<rparr>))"

text \<open>One pass of the loop in \<^verbatim>\<open>monitoring_thread\<close>: the totals and the efficiency.\<close>

definition monitoring_iteration :: "(nat \<Rightarrow> real) \<Rightarrow> registry \<Rightarrow> py_error + dashboard \<times> real" where
  "monitoring_iteration now instance_callbacks =
     (case monitor_instances now instance_callbacks (sort (map fst instance_callbacks))
             \<lparr>lines = [], total_fps = 0, total_frames = 0, total_detections_all = 0\<rparr> of
        Inl e \<Rightarrow> Inl e
      | Inr totals \<Rightarrow>
          (case (if length instance_callbacks > 0
                 then (case truediv (total_fps totals) (real (length instance_callbacks * 30)) of
                         Inl e \<Rightarrow> Inl e
                       | Inr ratio \<Rightarrow> Inr (ratio * 100))
                 else Inr 0) of
             Inl e \<Rightarrow> Inl e
           | Inr efficiency \<Rightarrow> Inr (totals, efficiency)))"

section \<open>Properties\<close>

subsection \<open>Sliding windows\<close>

lemma record_all_snoc:
  "record_all (ts @ [t]) self = snd (calculate_fps t (record_all ts self))"
  by (induction ts arbitrary: self) simp_all

lemma record_all_o_snoc:
  "record_all_o (ts @ [t]) self = snd (calculate_fps_o t (record_all_o ts self))"
  by (induction ts arbitrary: self) simp_all

lemma record_all_y_snoc:
  "record_all_y (ts @ [t]) self = snd (calculate_fps_y t (record_all_y ts self))"
  by (induction ts arbitrary: self) simp_all

text \<open>Dropping the head of a full window keeps the last \<open>c\<close> of all timestamps.\<close>

lemma evict_oldest_drop:
  assumes "0 < c"
  shows "(if length (drop (length ts - c) ts @ [t]) > c
          then tl (drop (length ts - c) ts @ [t]) else drop (length ts - c) ts @ [t])
         = drop (length (ts @ [t]) - c) (ts @ [t])"
proof (cases "length ts < c")
  case True
  then show ?thesis by simp
next
  case False
  then have ge: "c \<le> length ts" by simp
  with assms have ne: "drop (length ts - c) ts \<noteq> []" by simp
  have "tl (drop (length ts - c) ts @ [t]) = drop (Suc (length ts - c)) ts @ [t]"
    using ne by (simp add: drop_Suc tl_drop)
  moreover have "Suc (length ts - c) = Suc (length ts) - c" using ge by simp
  ultimately show ?thesis using ge assms by (cases c) simp_all
qed

lemma calculate_fps_frame_times:
  "frame_times (snd (calculate_fps t self)) =
     (if length (frame_times self @ [t]) > 60 then tl (frame_times self @ [t])
      else frame_times self @ [t])"
  by (simp add: calculate_fps_def Let_def)

lemma calculate_fps_o_frame_times:
  "frame_times_o (snd (calculate_fps_o t self)) =
     (if length (frame_times_o self @ [t]) > 30 then tl (frame_times_o self @ [t])
      else frame_times_o self @ [t])"
  by (simp add: calculate_fps_o_def Let_def)

lemma record_all_window:
  "frame_times (record_all ts (EnhancedInstanceCallback_init i a b)) = drop (length ts - 60) ts"
proof (induction ts rule: rev_induct)
  case Nil
  show ?case by (simp add: EnhancedInstanceCallback_init_def)
next
  case (snoc t ts)
  show ?case
    unfolding record_all_snoc calculate_fps_frame_times snoc.IH
    using evict_oldest_drop [of 60 ts t] by simp
qed

lemma record_all_o_window:
  "frame_times_o (record_all_o ts (MultiInstanceCallback_o_init i a)) = drop (length ts - 30) ts"
proof (induction ts rule: rev_induct)
  case Nil
  show ?case by (simp add: MultiInstanceCallback_o_init_def)
next
  case (snoc t ts)
  show ?case
    unfolding record_all_o_snoc calculate_fps_o_frame_times snoc.IH
    using evict_oldest_drop [of 30 ts t] by simp
qed

text \<open>
  C4. For every sequence of recorded timestamps, the window retained by the estimator
  of \<^verbatim>\<open>multi_instance_detection.py\<close> is the last 60 of them, in order, and the window
  of \<^verbatim>\<open>multi_instance_detection_old.py\<close> is the last 30: a window never holds more
  than its capacity, and what has been evicted are the oldest entries.
\<close>

theorem window_bounded_oldest_evicted:
  "frame_times (record_all ts (EnhancedInstanceCallback_init i a b)) = drop (length ts - 60) ts
   \<and> length (frame_times (record_all ts (EnhancedInstanceCallback_init i a b))) \<le> 60
   \<and> frame_times_o (record_all_o ts (MultiInstanceCallback_o_init i a)) = drop (length ts - 30) ts
   \<and> length (frame_times_o (record_all_o ts (MultiInstanceCallback_o_init i a))) \<le> 30"
proof -
  have "length ts - (length ts - 60) \<le> 60" and "length ts - (length ts - 30) \<le> 30"
    by arith+
  then show ?thesis
    by (simp add: record_all_window record_all_o_window)
qed

subsection \<open>Rates\<close>

lemma strict_hd_less_last:
  assumes "sorted_wrt (<) (w :: real list)" and "2 \<le> length w"
  shows "hd w < last w"
proof -
  from assms(2) obtain x y zs where w: "w = x # y # zs"
    by (cases w; cases "tl w") auto
  have "last w \<in> set (y # zs)" unfolding w by (metis last_ConsR last_in_set list.distinct(1))
  with assms(1) show ?thesis unfolding w by auto
qed

lemma calculate_fps_current:
  "current_fps (snd (calculate_fps t self)) =
     (if 2 \<le> length (frame_times (snd (calculate_fps t self))) \<and>
         0 < last (frame_times (snd (calculate_fps t self))) - hd (frame_times (snd (calculate_fps t self)))
      then real (length (frame_times (snd (calculate_fps t self))) - 1) /
           (last (frame_times (snd (calculate_fps t self))) - hd (frame_times (snd (calculate_fps t self))))
      else current_fps self)"
  by (simp add: calculate_fps_def Let_def)

lemma calculate_fps_o_current:
  "fps_o (snd (calculate_fps_o t self)) =
     (if 2 \<le> length (frame_times_o (snd (calculate_fps_o t self))) \<and>
         0 < last (frame_times_o (snd (calculate_fps_o t self))) - hd (frame_times_o (snd (calculate_fps_o t self)))
      then real (length (frame_times_o (snd (calculate_fps_o t self))) - 1) /
           (last (frame_times_o (snd (calculate_fps_o t self))) - hd (frame_times_o (snd (calculate_fps_o t self))))
      else fps_o self)"
  by (simp add: calculate_fps_o_def Let_def)

text \<open>The arithmetic shared by both windows: the rate over the last \<open>c\<close> timestamps.\<close>

lemma window_rate_step:
  assumes sorted: "sorted_wrt (<) ts" and ts: "ts = us @ [t]"
    and w: "w = drop (length ts - c) ts" and c: "2 \<le> c"
    and old: "us = [] \<Longrightarrow> r0 = 0"
    and new: "r = (if 2 \<le> length w \<and> 0 < last w - hd w
                  then real (length w - 1) / (last w - hd w) else r0)"
  shows "r = (if 2 \<le> length ts then real (min (length ts) c - 1) / (last w - hd w) else 0)"
    and "2 \<le> length ts \<Longrightarrow> 0 < last w - hd w"
proof -
  have len: "length w = min (length ts) c" by (simp add: w)
  have pos: "0 < last w - hd w" if "2 \<le> length ts"
  proof -
    from that c have "2 \<le> length w" by (simp add: len)
    moreover have "sorted_wrt (<) w" unfolding w using sorted by (rule sorted_wrt_drop)
    ultimately have "hd w < last w" by (rule strict_hd_less_last [rotated])
    then show ?thesis by simp
  qed
  then show "2 \<le> length ts \<Longrightarrow> 0 < last w - hd w" .
  show "r = (if 2 \<le> length ts then real (min (length ts) c - 1) / (last w - hd w) else 0)"
  proof (cases "2 \<le> length ts")
    case True
    then have "2 \<le> length w" using c by (simp add: len)
    with pos [OF True] True show ?thesis by (simp add: new len)
  next
    case False
    then have "us = []" using ts by (cases us) simp_all
    moreover have "\<not> 2 \<le> length w" using False by (simp add: len)
    ultimately show ?thesis using False old by (simp add: new)
  qed
qed

lemma record_all_rate:
  assumes "sorted_wrt (<) ts"
  shows "current_fps (record_all ts (EnhancedInstanceCallback_init i a b)) =
           (if 2 \<le> length ts
            then real (min (length ts) 60 - 1) /
                 (last (frame_times (record_all ts (EnhancedInstanceCallback_init i a b))) -
                  hd (frame_times (record_all ts (EnhancedInstanceCallback_init i a b))))
            else 0)
         \<and> (2 \<le> length ts \<longrightarrow>
           0 < last (frame_times (record_all ts (EnhancedInstanceCallback_init i a b))) -
               hd (frame_times (record_all ts (EnhancedInstanceCallback_init i a b))))"
proof (cases ts rule: rev_cases)
  case Nil
  then show ?thesis by (simp add: EnhancedInstanceCallback_init_def)
next
  case (snoc us t)
  define s where "s = record_all us (EnhancedInstanceCallback_init i a b)"
  have rec: "record_all ts (EnhancedInstanceCallback_init i a b) = snd (calculate_fps t s)"
    by (simp add: snoc record_all_snoc s_def)
  have win: "frame_times (snd (calculate_fps t s)) = drop (length ts - 60) ts"
    using record_all_window [of ts i a b] by (simp only: rec)
  have old: "us = [] \<Longrightarrow> current_fps s = 0"
    by (simp add: s_def EnhancedInstanceCallback_init_def)
  note step = window_rate_step [OF assms snoc win _ old calculate_fps_current]
  show ?thesis unfolding rec using step by simp
qed

lemma record_all_o_rate:
  assumes "sorted_wrt (<) ts"
  shows "fps_o (record_all_o ts (MultiInstanceCallback_o_init i a)) =
           (if 2 \<le> length ts
            then real (min (length ts) 30 - 1) /
                 (last (frame_times_o (record_all_o ts (MultiInstanceCallback_o_init i a))) -
                  hd (frame_times_o (record_all_o ts (MultiInstanceCallback_o_init i a))))
            else 0)
         \<and> (2 \<le> length ts \<longrightarrow>
           0 < last (frame_times_o (record_all_o ts (MultiInstanceCallback_o_init i a))) -
               hd (frame_times_o (record_all_o ts (MultiInstanceCallback_o_init i a))))"
proof (cases ts rule: rev_cases)
  case Nil
  then show ?thesis by (simp add: MultiInstanceCallback_o_init_def)
next
  case (snoc us t)
  define s where "s = record_all_o us (MultiInstanceCallback_o_init i a)"
  have rec: "record_all_o ts (MultiInstanceCallback_o_init i a) = snd (calculate_fps_o t s)"
    by (simp add: snoc record_all_o_snoc s_def)
  have win: "frame_times_o (snd (calculate_fps_o t s)) = drop (length ts - 30) ts"
    using record_all_o_window [of ts i a] by (simp only: rec)
  have old: "us = [] \<Longrightarrow> fps_o s = 0"
    by (simp add: s_def MultiInstanceCallback_o_init_def)
  note step = window_rate_step [OF assms snoc win _ old calculate_fps_o_current]
  show ?thesis unfolding rec using step by simp
qed

text \<open>The batch estimator: nothing but the call counter changes before the 30th call.\<close>

lemma record_all_y_before_30:
  "length ts < 30 \<Longrightarrow>
     fps_frame_count_y (record_all_y ts (MultiInstanceCallback_y_init i a b)) = length ts
     \<and> current_fps_y (record_all_y ts (MultiInstanceCallback_y_init i a b)) = 0
     \<and> last_fps_time_y (record_all_y ts (MultiInstanceCallback_y_init i a b)) = b"
proof (induction ts rule: rev_induct)
  case Nil
  show ?case by (simp add: MultiInstanceCallback_y_init_def)
next
  case (snoc t ts)
  then show ?case
    by (simp add: record_all_y_snoc calculate_fps_y_def Let_def)
qed

lemma record_all_y_at_30:
  assumes "length ts = 30" and "b < last ts"
  shows "current_fps_y (record_all_y ts (MultiInstanceCallback_y_init i a b)) = 30 / (last ts - b)"
proof -
  from assms(1) obtain us t where ts: "ts = us @ [t]" by (cases ts rule: rev_cases) auto
  with assms(1) have "length us < 30" by simp
  from record_all_y_before_30 [OF this, of i a b] assms ts show ?thesis
    by (simp add: record_all_y_snoc calculate_fps_y_def Let_def)
qed

text \<open>
  C1 (amended). For every strictly increasing sequence of \<open>n\<close> timestamps recorded from
  a fresh object, the sliding-window estimators of \<^verbatim>\<open>multi_instance_detection.py\<close>
  (capacity 60) and \<^verbatim>\<open>multi_instance_detection_old.py\<close> (capacity 30) return, once
  \<open>n \<ge> 2\<close>, the rate \<open>(min n capacity - 1) / (last - first timestamp of the window)\<close>,
  and 0 when \<open>n \<le> 1\<close> or the span of the window is 0. The estimator of
  \<^verbatim>\<open>multi_instance_yolo11l.py\<close> keeps no window: its rate is still 0 after fewer than
  30 records.
\<close>

theorem sliding_window_rate:
  assumes "sorted_wrt (<) ts"
  shows "current_fps (record_all ts (EnhancedInstanceCallback_init i a b)) =
           (if 2 \<le> length ts
            then real (min (length ts) 60 - 1) /
                 (last (frame_times (record_all ts (EnhancedInstanceCallback_init i a b))) -
                  hd (frame_times (record_all ts (EnhancedInstanceCallback_init i a b))))
            else 0)
       \<and> fps_o (record_all_o ts (MultiInstanceCallback_o_init i a)) =
           (if 2 \<le> length ts
            then real (min (length ts) 30 - 1) /
                 (last (frame_times_o (record_all_o ts (MultiInstanceCallback_o_init i a))) -
                  hd (frame_times_o (record_all_o ts (MultiInstanceCallback_o_init i a))))
            else 0)
       \<and> (length ts \<le> 1 \<or>
            last (frame_times (record_all ts (EnhancedInstanceCallback_init i a b))) -
            hd (frame_times (record_all ts (EnhancedInstanceCallback_init i a b))) = 0 \<or>
            last (frame_times_o (record_all_o ts (MultiInstanceCallback_o_init i a))) -
            hd (frame_times_o (record_all_o ts (MultiInstanceCallback_o_init i a))) = 0
          \<longrightarrow> current_fps (record_all ts (EnhancedInstanceCallback_init i a b)) = 0
              \<and> fps_o (record_all_o ts (MultiInstanceCallback_o_init i a)) = 0)
       \<and> (length ts < 30 \<longrightarrow>
            current_fps_y (record_all_y ts (MultiInstanceCallback_y_init i a b)) = 0)"
proof -
  note r = record_all_rate [OF assms, of i a b] and ro = record_all_o_rate [OF assms, of i a]
  have "length ts \<le> 1" if "last (frame_times (record_all ts (EnhancedInstanceCallback_init i a b))) -
            hd (frame_times (record_all ts (EnhancedInstanceCallback_init i a b))) = 0 \<or>
            last (frame_times_o (record_all_o ts (MultiInstanceCallback_o_init i a))) -
            hd (frame_times_o (record_all_o ts (MultiInstanceCallback_o_init i a))) = 0"
    using that r ro by (cases "2 \<le> length ts") auto
  moreover have "current_fps (record_all ts (EnhancedInstanceCallback_init i a b)) = 0
              \<and> fps_o (record_all_o ts (MultiInstanceCallback_o_init i a)) = 0" if "length ts \<le> 1"
    using that r ro by simp
  ultimately show ?thesis
    using r ro record_all_y_before_30 [of ts i a b] by blast
qed

theorem sliding_window_rate_witness:
  "sorted_wrt (<) [1, 2, 4 :: real]
   \<and> current_fps (record_all [1, 2, 4] (EnhancedInstanceCallback_init 0 0 0)) = 2 / 3
   \<and> fps_o (record_all_o [1, 2, 4] (MultiInstanceCallback_o_init 0 0)) = 2 / 3
   \<and> current_fps_y (record_all_y [1, 2, 4] (MultiInstanceCallback_y_init 0 0 0)) = 0
   \<and> sorted_wrt (<) [5 :: real]
   \<and> current_fps (record_all [5] (EnhancedInstanceCallback_init 0 0 0)) = 0"
proof -
  have a: "sorted_wrt (<) [1, 2, 4 :: real]" and b: "sorted_wrt (<) [5 :: real]" by simp_all
  show ?thesis
    using sliding_window_rate [OF a, of 0 0 0] sliding_window_rate [OF b, of 0 0 0]
    by (simp add: calculate_fps_def calculate_fps_o_def calculate_fps_y_def Let_def
        EnhancedInstanceCallback_init_def MultiInstanceCallback_o_init_def
        MultiInstanceCallback_y_init_def)
qed

text \<open>
  C1 as stated fails on \<^verbatim>\<open>multi_instance_yolo11l.py\<close>: after the two records 1 and 2
  its rate is 0, not \<open>(2 - 1) / (2 - 1)\<close>.
\<close>

theorem batch_rate_counterexample:
  "sorted_wrt (<) [1, 2 :: real]
   \<and> current_fps_y (record_all_y [1, 2] (MultiInstanceCallback_y_init 0 0 0))
       \<noteq> real (min (length [1, 2 :: real]) 30 - 1) / (last [1, 2] - hd [1, 2])"
  by (simp add: calculate_fps_y_def MultiInstanceCallback_y_init_def Let_def)

subsection \<open>The per-frame callbacks\<close>

lemma count_detections_eq:
  "count_detections ds (acc, ud) =
     (acc @ ds, ud\<lparr>total_detections := total_detections ud + length ds\<rparr>)"
  by (induction ds arbitrary: acc ud) simp_all

lemma count_detections_y_eq:
  "count_detections_y ds (acc, ud) =
     (acc @ ds, ud\<lparr>total_detections_y := total_detections_y ud + length ds\<rparr>)"
  by (induction ds arbitrary: acc ud) simp_all

lemma calculate_fps_last:
  "last (frame_times (snd (calculate_fps t self))) = t"
  by (cases "frame_times self") (simp_all add: calculate_fps_frame_times)

lemma calculate_fps_frame:
  "frame_count (snd (calculate_fps t self)) = frame_count self"
  "detection_count (snd (calculate_fps t self)) = detection_count self"
  "total_detections (snd (calculate_fps t self)) = total_detections self"
  "start_time (snd (calculate_fps t self)) = start_time self"
  "instance_id (snd (calculate_fps t self)) = instance_id self"
  by (simp_all add: calculate_fps_def Let_def)

lemma calculate_fps_y_frame:
  "frame_count (snd (calculate_fps_y t self)) = frame_count self"
  "detection_count_y (snd (calculate_fps_y t self)) = detection_count_y self"
  "total_detections_y (snd (calculate_fps_y t self)) = total_detections_y self"
  "start_time_y (snd (calculate_fps_y t self)) = start_time_y self"
  by (simp_all add: calculate_fps_y_def Let_def)

lemma enhanced_callback_state:
  "snd (enhanced_callback iid t t' b ud) =
     (case b of
        None \<Rightarrow> snd (calculate_fps t (increment ud))
      | Some buf \<Rightarrow> (snd (calculate_fps t (increment ud)))
          \<lparr>total_detections := total_detections ud + length (detections buf),
           detection_count := length (detections buf)\<rparr>)"
  by (simp add: enhanced_callback_def Let_def count_detections_eq calculate_fps_frame
      increment_def split: option.splits)

lemma app_callback_y_state:
  "snd (app_callback_y iid t t' b ud) =
     (case b of
        None \<Rightarrow> snd (calculate_fps_y t (increment ud))
      | Some buf \<Rightarrow> (snd (calculate_fps_y t (increment ud)))
          \<lparr>total_detections_y := total_detections_y ud + length (detections buf),
           detection_count_y := length (detections buf)\<rparr>)"
  by (simp add: app_callback_y_def Let_def count_detections_y_eq calculate_fps_y_frame
      increment_def split: option.splits)

lemma calculate_fps_y_estimator:
  "fps_frame_count_y (snd (calculate_fps_y t self)) =
     (if fps_frame_count_y self + 1 \<ge> 30 then 0 else fps_frame_count_y self + 1)"
  "last_fps_time_y (snd (calculate_fps_y t self)) =
     (if fps_frame_count_y self + 1 \<ge> 30 then t else last_fps_time_y self)"
  "current_fps_y (snd (calculate_fps_y t self)) =
     (if fps_frame_count_y self + 1 \<ge> 30 \<and> t - last_fps_time_y self > 0
      then real (fps_frame_count_y self + 1) / (t - last_fps_time_y self)
      else current_fps_y self)"
  by (simp_all add: calculate_fps_y_def Let_def)

text \<open>
  C10 (amended). Every invocation of the per-frame callback, whatever the buffer is,
  first increments the frame counter and runs \<^verbatim>\<open>calculate_fps\<close>. In
  \<^verbatim>\<open>multi_instance_detection.py\<close> the current time is appended to the window (the oldest
  entry leaving a window of more than 60) and so is its newest entry. In
  \<^verbatim>\<open>multi_instance_yolo11l.py\<close> there is no window: the call counter of the estimator goes
  up by one, and only when it reaches 30 is the current time used, for the rate, and
  stored, as the time of the last computation, the counter returning to 0. With a \<open>None\<close>
  buffer the callback returns \<open>OK\<close>, prints nothing, and leaves the per-frame detection
  count and the total of detections as they were.
\<close>

theorem callback_counts_before_buffer:
  "enhanced_callback iid t t' None ud = ((OK, []), snd (calculate_fps t (increment ud)))
   \<and> fst (fst (enhanced_callback iid t t' b ud)) = OK
   \<and> frame_count (snd (enhanced_callback iid t t' b ud)) = frame_count ud + 1
   \<and> frame_times (snd (enhanced_callback iid t t' b ud)) =
       (if length (frame_times ud @ [t]) > 60 then tl (frame_times ud @ [t])
        else frame_times ud @ [t])
   \<and> last (frame_times (snd (enhanced_callback iid t t' b ud))) = t
   \<and> detection_count (snd (enhanced_callback iid t t' None ud)) = detection_count ud
   \<and> total_detections (snd (enhanced_callback iid t t' None ud)) = total_detections ud
   \<and> app_callback_y iid t t' None uy = ((OK, []), snd (calculate_fps_y t (increment uy)))
   \<and> fst (fst (app_callback_y iid t t' b uy)) = OK
   \<and> frame_count (snd (app_callback_y iid t t' b uy)) = frame_count uy + 1
   \<and> fps_frame_count_y (snd (app_callback_y iid t t' b uy)) =
       (if fps_frame_count_y uy + 1 \<ge> 30 then 0 else fps_frame_count_y uy + 1)
   \<and> last_fps_time_y (snd (app_callback_y iid t t' b uy)) =
       (if fps_frame_count_y uy + 1 \<ge> 30 then t else last_fps_time_y uy)
   \<and> current_fps_y (snd (app_callback_y iid t t' b uy)) =
       (if fps_frame_count_y uy + 1 \<ge> 30 \<and> t - last_fps_time_y uy > 0
        then real (fps_frame_count_y uy + 1) / (t - last_fps_time_y uy)
        else current_fps_y uy)
   \<and> detection_count_y (snd (app_callback_y iid t t' None uy)) = detection_count_y uy
   \<and> total_detections_y (snd (app_callback_y iid t t' None uy)) = total_detections_y uy"
proof -
  have ft: "frame_times (snd (calculate_fps t (increment ud))) =
       (if length (frame_times ud @ [t]) > 60 then tl (frame_times ud @ [t])
        else frame_times ud @ [t])"
    by (simp add: calculate_fps_frame_times increment_def)
  have a: "enhanced_callback iid t t' None ud = ((OK, []), snd (calculate_fps t (increment ud)))"
    by (simp add: enhanced_callback_def Let_def)
  have b: "fst (fst (enhanced_callback iid t t' b ud)) = OK"
    by (simp add: enhanced_callback_def Let_def split: option.splits prod.splits)
  have c: "frame_count (snd (enhanced_callback iid t t' b ud)) = frame_count ud + 1"
    by (simp add: enhanced_callback_state calculate_fps_frame increment_def split: option.splits)
  have d0: "frame_times (snd (enhanced_callback iid t t' b ud)) =
       frame_times (snd (calculate_fps t (increment ud)))"
    by (simp add: enhanced_callback_state split: option.splits)
  have d: "frame_times (snd (enhanced_callback iid t t' b ud)) =
       (if length (frame_times ud @ [t]) > 60 then tl (frame_times ud @ [t])
        else frame_times ud @ [t])"
    by (simp only: d0 ft)
  have e: "last (frame_times (snd (enhanced_callback iid t t' b ud))) = t"
    by (simp only: d0 calculate_fps_last)
  have f: "detection_count (snd (enhanced_callback iid t t' None ud)) = detection_count ud"
     "total_detections (snd (enhanced_callback iid t t' None ud)) = total_detections ud"
    by (simp_all add: enhanced_callback_state calculate_fps_frame increment_def)
  have a': "app_callback_y iid t t' None uy = ((OK, []), snd (calculate_fps_y t (increment uy)))"
    by (simp add: app_callback_y_def Let_def)
  have b': "fst (fst (app_callback_y iid t t' b uy)) = OK"
    by (simp add: app_callback_y_def Let_def split: option.splits prod.splits)
  have c': "frame_count (snd (app_callback_y iid t t' b uy)) = frame_count uy + 1"
    by (simp add: app_callback_y_state calculate_fps_y_frame increment_def split: option.splits)
  have g1: "fps_frame_count_y (snd (app_callback_y iid t t' b uy)) =
       (if fps_frame_count_y uy + 1 \<ge> 30 then 0 else fps_frame_count_y uy + 1)"
    by (simp add: app_callback_y_state calculate_fps_y_estimator increment_def
        split: option.splits)
  have g2: "last_fps_time_y (snd (app_callback_y iid t t' b uy)) =
       (if fps_frame_count_y uy + 1 \<ge> 30 then t else last_fps_time_y uy)"
    by (simp add: app_callback_y_state calculate_fps_y_estimator increment_def
        split: option.splits)
  have g3: "current_fps_y (snd (app_callback_y iid t t' b uy)) =
       (if fps_frame_count_y uy + 1 \<ge> 30 \<and> t - last_fps_time_y uy > 0
        then real (fps_frame_count_y uy + 1) / (t - last_fps_time_y uy)
        else current_fps_y uy)"
    by (simp add: app_callback_y_state calculate_fps_y_estimator increment_def
        split: option.splits)
  have f': "detection_count_y (snd (app_callback_y iid t t' None uy)) = detection_count_y uy"
     "total_detections_y (snd (app_callback_y iid t t' None uy)) = total_detections_y uy"
    by (simp_all add: app_callback_y_state calculate_fps_y_frame increment_def)
  from a b c d e f a' b' c' g1 g2 g3 f' show ?thesis by (intro conjI)
qed

text \<open>
  C10 as stated fails on \<^verbatim>\<open>multi_instance_yolo11l.py\<close>: the callback of a fresh object
  leaves the same object behind whether the clock reads 1 or 9999, so the time of the
  call is recorded nowhere.
\<close>

theorem timestamp_not_recorded_counterexample:
  "snd (app_callback_y 0 1 1 None (MultiInstanceCallback_y_init 0 0 0)) =
     snd (app_callback_y 0 9999 9999 None (MultiInstanceCallback_y_init 0 0 0))
   \<and> snd (app_callback_y 0 9999 9999 None (MultiInstanceCallback_y_init 0 0 0)) =
     \<lparr>frame_count = 1, instance_id_y = 0, start_time_y = 0, last_fps_time_y = 0,
      fps_frame_count_y = 1, current_fps_y = 0, detection_count_y = 0,
      total_detections_y = 0\<rparr>"
  by (simp add: app_callback_y_def calculate_fps_y_def increment_def
      MultiInstanceCallback_y_init_def Let_def)

subsection \<open>The registry\<close>

lemma on_frame_keys: "fst ` set (on_frame iid t t' buf reg) = fst ` set reg"
proof (cases "map_of reg iid")
  case None
  then show ?thesis by (simp add: on_frame_def)
next
  case (Some ud)
  then have "iid \<in> fst ` set reg" by (auto dest: map_of_SomeD intro: rev_image_eqI)
  with Some show ?thesis by (auto simp add: on_frame_def dom_update)
qed

text \<open>
  C5 (amended). Constructing a worker for an instance id stores a fresh callback object
  under that id, whether or not the id already has an entry: frame counter and total of
  detections are 0, the window is empty, the rate is 0 and the start time is the time of
  construction; the other entries are untouched. No operation removes an entry: the
  constructor adds the id to the keys and a frame leaves the keys as they are.
\<close>

theorem restart_replaces_entry:
  "map_of (YOLOv11lDetectionApp_init iid a b reg) =
     (map_of reg)(iid \<mapsto> EnhancedInstanceCallback_init iid a b)
   \<and> frame_count (EnhancedInstanceCallback_init iid a b) = 0
   \<and> total_detections (EnhancedInstanceCallback_init iid a b) = 0
   \<and> frame_times (EnhancedInstanceCallback_init iid a b) = []
   \<and> current_fps (EnhancedInstanceCallback_init iid a b) = 0
   \<and> start_time (EnhancedInstanceCallback_init iid a b) = a
   \<and> fst ` set (YOLOv11lDetectionApp_init iid a b reg) = insert iid (fst ` set reg)
   \<and> fst ` set (on_frame iid t t' buf reg) = fst ` set reg"
  by (simp add: YOLOv11lDetectionApp_init_def update_conv' dom_update on_frame_keys
      EnhancedInstanceCallback_init_def)

text \<open>
  C5 as stated fails: worker 0 is constructed and processes one frame with one detection,
  so its entry counts 1 frame and 1 detection; constructing worker 0 again leaves an
  entry that counts 0 frames and 0 detections.
\<close>

theorem restart_resets_counters_counterexample:
  "map_option total_detections
     (map_of (on_frame 0 1 1 (Some \<lparr>detections = [(''person'', 0.9)], fault = None\<rparr>)
                (YOLOv11lDetectionApp_init 0 0 0 [])) 0) = Some 1
   \<and> map_option frame_count
     (map_of (on_frame 0 1 1 (Some \<lparr>detections = [(''person'', 0.9)], fault = None\<rparr>)
                (YOLOv11lDetectionApp_init 0 0 0 [])) 0) = Some 1
   \<and> map_option total_detections
     (map_of (YOLOv11lDetectionApp_init 0 5 5
               (on_frame 0 1 1 (Some \<lparr>detections = [(''person'', 0.9)], fault = None\<rparr>)
                 (YOLOv11lDetectionApp_init 0 0 0 []))) 0) = Some 0
   \<and> map_option frame_count
     (map_of (YOLOv11lDetectionApp_init 0 5 5
               (on_frame 0 1 1 (Some \<lparr>detections = [(''person'', 0.9)], fault = None\<rparr>)
                 (YOLOv11lDetectionApp_init 0 0 0 []))) 0) = Some 0"
  by (simp add: YOLOv11lDetectionApp_init_def on_frame_def enhanced_callback_def
      EnhancedInstanceCallback_init_def calculate_fps_def increment_def get_count_def Let_def)

subsection \<open>The dashboard\<close>

lemma map_insort_key: "map f (insort_key f x xs) = insort (f x) (map f xs)"
  by (induction xs) simp_all

lemma map_sort_key: "map f (sort_key f xs) = sort (map f xs)"
  by (induction xs) (simp_all add: map_insort_key)

lemma getitem_key:
  assumes "k \<in> fst ` set reg"
  shows "\<exists>cb. getitem reg k = Inr cb"
proof -
  from assms have "map_of reg k \<noteq> None" by (simp add: map_of_eq_None_iff)
  then show ?thesis by (auto simp add: getitem_def)
qed

lemma monitor_instances_ok:
  "set ks \<subseteq> fst ` set reg \<Longrightarrow> \<exists>d. monitor_instances now reg ks acc = Inr d"
proof (induction ks arbitrary: acc)
  case Nil
  show ?case by simp
next
  case (Cons k ks)
  then obtain cb where cb: "getitem reg k = Inr cb" using getitem_key [of k reg] by auto
  from Cons.prems have ks: "set ks \<subseteq> fst ` set reg" by simp
  show ?case
    using Cons.IH [OF ks] by (simp add: cb truediv_def Let_def)
qed

text \<open>
  C9. One pass of the dashboard loop ends without an error on every registry, empty,
  partial or full: the keys it looks up are keys of the registry, the division by the
  runtime is made only when the runtime is positive, and the division by the number of
  instances only when there is one. On the empty registry all totals and the
  efficiency are 0.
\<close>

theorem dashboard_never_fails:
  "(\<exists>d e. monitoring_iteration now reg = Inr (d, e))
   \<and> monitoring_iteration now [] =
       Inr (\<lparr>lines = [], total_fps = 0, total_frames = 0, total_detections_all = 0\<rparr>, 0)"
proof -
  have "set (sort (map fst reg)) \<subseteq> fst ` set reg" by simp
  from monitor_instances_ok [OF this]
  obtain d where "monitor_instances now reg (sort (map fst reg))
      \<lparr>lines = [], total_fps = 0, total_frames = 0, total_detections_all = 0\<rparr> = Inr d"
    by blast
  then have "\<exists>d e. monitoring_iteration now reg = Inr (d, e)"
    by (simp add: monitoring_iteration_def truediv_def)
  moreover have "monitoring_iteration now [] =
       Inr (\<lparr>lines = [], total_fps = 0, total_frames = 0, total_detections_all = 0\<rparr>, 0)"
    by (simp add: monitoring_iteration_def)
  ultimately show ?thesis by simp
qed

lemma monitor_instances_entries:
  assumes "distinct (map fst reg)"
  shows "set es \<subseteq> set reg \<Longrightarrow> \<forall>(i, cb) \<in> set es. start_time cb < now i \<Longrightarrow>
     \<exists>d. monitor_instances now reg (map fst es) acc = Inr d
       \<and> map line_instance (lines d) = map line_instance (lines acc) @ map fst es
       \<and> map line_avg_fps (lines d) = map line_avg_fps (lines acc) @
            map (\<lambda>(i, cb). real (frame_count cb) / (now i - start_time cb)) es
       \<and> total_fps d = total_fps acc +
            sum_list (map (\<lambda>(i, cb). real (frame_count cb) / (now i - start_time cb)) es)"
proof (induction es arbitrary: acc)
  case Nil
  show ?case by simp
next
  case (Cons e es)
  obtain i cb where e: "e = (i, cb)" by (cases e)
  from Cons.prems e have mem: "(i, cb) \<in> set reg" and pos: "start_time cb < now i" by auto
  from mem assms have get: "getitem reg i = Inr cb" by (simp add: getitem_def)
  from Cons.prems have es: "set es \<subseteq> set reg" "\<forall>(i, cb) \<in> set es. start_time cb < now i"
    by auto
  define acc' where "acc' =
     \<lparr>lines = lines acc @
        [\<lparr>line_instance = i, line_frames = get_count cb,
          line_current_fps = current_fps cb,
          line_avg_fps = real (frame_count cb) / (now i - start_time cb),
          line_detections = total_detections cb,
          line_indicator = (if real (frame_count cb) / (now i - start_time cb) > 20 then Green
                            else if real (frame_count cb) / (now i - start_time cb) > 10
                                 then Yellow else Red)\<rparr>],
      total_fps = total_fps acc + real (frame_count cb) / (now i - start_time cb),
      total_frames = total_frames acc + get_count cb,
      total_detections_all = total_detections_all acc + total_detections cb\<rparr>"
  have step: "monitor_instances now reg (map fst (e # es)) acc =
              monitor_instances now reg (map fst es) acc'"
    using pos by (simp add: e get truediv_def Let_def acc'_def get_count_def)
  from Cons.IH [OF es, of acc'] obtain d where d: "monitor_instances now reg (map fst es) acc' = Inr d"
       "map line_instance (lines d) = map line_instance (lines acc') @ map fst es"
       "map line_avg_fps (lines d) = map line_avg_fps (lines acc') @
            map (\<lambda>(i, cb). real (frame_count cb) / (now i - start_time cb)) es"
       "total_fps d = total_fps acc' +
            sum_list (map (\<lambda>(i, cb). real (frame_count cb) / (now i - start_time cb)) es)"
    by blast
  show ?case
    unfolding step using d by (simp add: acc'_def e)
qed

text \<open>
  C6. On a registry that is not empty, whose workers all started before the clock
  reading taken for them, one pass of the dashboard loop reports the instances in the
  order of their ids, gives each the average rate \<open>frames / (now - start_time)\<close>, sums
  these averages into the combined rate, and reports the efficiency
  \<open>combined / (number of instances * 30) * 100\<close>.
\<close>

theorem dashboard_formulas:
  assumes "reg \<noteq> []" and "distinct (map fst reg)"
    and "\<forall>(i, cb) \<in> set reg. start_time cb < now i"
  shows "\<exists>d e. monitoring_iteration now reg = Inr (d, e)
     \<and> map line_instance (lines d) = sort (map fst reg)
     \<and> map line_avg_fps (lines d) =
         map (\<lambda>(i, cb). real (frame_count cb) / (now i - start_time cb)) (sort_key fst reg)
     \<and> total_fps d = sum_list (map line_avg_fps (lines d))
     \<and> e = total_fps d / (real (length reg) * 30) * 100"
proof -
  have sub: "set (sort_key fst reg) \<subseteq> set reg" by simp
  have pos: "\<forall>(i, cb) \<in> set (sort_key fst reg). start_time cb < now i" using assms(3) by simp
  from monitor_instances_entries [OF assms(2) sub pos,
      of "\<lparr>lines = [], total_fps = 0, total_frames = 0, total_detections_all = 0\<rparr>"]
  obtain d where d: "monitor_instances now reg (sort (map fst reg))
        \<lparr>lines = [], total_fps = 0, total_frames = 0, total_detections_all = 0\<rparr> = Inr d"
     "map line_instance (lines d) = sort (map fst reg)"
     "map line_avg_fps (lines d) =
         map (\<lambda>(i, cb). real (frame_count cb) / (now i - start_time cb)) (sort_key fst reg)"
     "total_fps d = sum_list (map line_avg_fps (lines d))"
    by (auto simp add: map_sort_key)
  from assms(1) have "monitoring_iteration now reg =
      Inr (d, total_fps d / (real (length reg) * 30) * 100)"
    by (simp add: monitoring_iteration_def d(1) truediv_def)
  with d show ?thesis by blast
qed

theorem dashboard_formulas_witness:
  "\<exists>d e. monitoring_iteration (\<lambda>i. 10)
       [(1, (EnhancedInstanceCallback_init 1 5 5)\<lparr>frame_count := 50\<rparr>),
        (0, (EnhancedInstanceCallback_init 0 0 0)\<lparr>frame_count := 100\<rparr>)] = Inr (d, e)
     \<and> map line_instance (lines d) = [0, 1]
     \<and> map line_avg_fps (lines d) = [10, 10]
     \<and> total_fps d = 20
     \<and> e = 100 / 3"
  using dashboard_formulas [of
       "[(1, (EnhancedInstanceCallback_init 1 5 5)\<lparr>frame_count := 50\<rparr>),
         (0, (EnhancedInstanceCallback_init 0 0 0)\<lparr>frame_count := 100\<rparr>)]" "\<lambda>i. 10"]
  by (auto simp add: EnhancedInstanceCallback_init_def)

subsection \<open>Workers and the supervising loops\<close>

lemma launch_4: "launch 4 = [0, 1, 2, 3]"
  by (simp add: launch_def upt_rec)

lemma health_loop_threads:
  "threads (snd (health_loop n events sv)) = threads sv"
  by (induction n events sv rule: health_loop.induct) (simp_all add: Let_def)

lemma health_loop_state:
  "fst (health_loop n events sv) = (if KeyboardInterrupt \<in> set events then ShutDown else Looping)"
  by (induction n events sv rule: health_loop.induct) (simp_all add: Let_def)

text \<open>
  C3 (amended). The health loop of \<^verbatim>\<open>multi_instance_detection.py\<close> never changes the list
  of worker threads: when fewer threads are alive than \<open>num_instances\<close> it prints one
  warning with the two numbers, and otherwise it does nothing. No worker is created
  after the launch, and there is no restart count and no restart budget.
\<close>

theorem health_loop_only_warns:
  "threads (snd (health_loop n events sv)) = threads sv
   \<and> health_loop n [Second alive] sv =
       (Looping,
        sv\<lparr>printed := printed sv @
             (if length (filter (\<lambda>t. t \<in> set alive) (threads sv)) < n
              then [Warning (length (filter (\<lambda>t. t \<in> set alive) (threads sv))) n]
              else [])\<rparr>)
   \<and> threads (snd (main events)) = [0, 1, 2, 3]"
  by (simp add: health_loop_threads main_def Let_def launch_4)

text \<open>
  C3 as stated fails: worker 2 is found dead in two successive periods of the health
  loop; the loop prints two warnings, and the threads are still the four that were
  launched.
\<close>

theorem crashed_worker_not_restarted_counterexample:
  "main [Second [0, 1, 3], Second [0, 1, 3]] =
     (Looping, \<lparr>threads = [0, 1, 2, 3], printed = [Warning 3 4, Warning 3 4]\<rparr>)"
  by (simp add: main_def launch_4 Let_def)

lemma except_Exception_caught:
  "fst (except_Exception iid e) \<noteq> Uncaught (Exception msg)"
  "fst (except_Exception iid e) \<noteq> Alive"
  by (cases e; simp)+

lemma run_instance_caught:
  "fst (fst (run_instance iid a b env reg)) \<noteq> Uncaught (Exception msg)"
  by (simp add: run_instance_def Let_def except_Exception_caught
      split: option.splits run_outcome.splits)

lemma run_single_instance_caught:
  "fst (run_single_instance iid n env) \<noteq> Uncaught (Exception msg)"
  by (simp add: run_single_instance_def except_Exception_caught
      split: option.splits run_outcome.splits)

lemma join_all_iff: "join_all ps = list_all (\<lambda>p. p \<noteq> Alive) ps"
  by (induction ps rule: join_all.induct) simp_all

text \<open>
  C7 (amended). An instance of \<^verbatim>\<open>Exception\<close> raised by the construction or the run of a
  worker never leaves the worker's runner: in both scripts the runner prints the error
  and returns, and in \<^verbatim>\<open>multi_instance_detection.py\<close> it leaves the registry entries of
  the other workers as they were. An exception that is no instance of \<^verbatim>\<open>Exception\<close>
  leaves the runner and ends that worker alone. The \<^verbatim>\<open>main\<close> of
  \<^verbatim>\<open>multi_instance_detection.py\<close> leaves its loop only on the operator's Ctrl+C, however
  many workers are alive. The \<^verbatim>\<open>main\<close> of \<^verbatim>\<open>multi_instance_yolo11l.py\<close> returns on Ctrl+C
  and also once every worker process has ended, by a failure or by a normal return; it
  keeps waiting as long as one worker runs.
\<close>

theorem worker_exceptions_contained:
  "fst (fst (run_instance iid a b env reg)) \<noteq> Uncaught (Exception msg)
   \<and> fst (run_instance iid a b \<lparr>construct = Some (Exception msg), run = r\<rparr> reg) =
       (Ended, [Starting iid, ErrorIn iid msg])
   \<and> fst (run_instance iid a b \<lparr>construct = None, run = Raises (Exception msg)\<rparr> reg) =
       (Ended, [Starting iid, ErrorIn iid msg])
   \<and> fst (run_instance iid a b \<lparr>construct = None, run = Raises (NonException msg)\<rparr> reg) =
       (Uncaught (NonException msg), [Starting iid])
   \<and> map_of (snd (run_instance iid a b env reg)) =
       (map_of reg)(iid \<mapsto> EnhancedInstanceCallback_init iid a b)
   \<and> fst (run_single_instance iid n env) \<noteq> Uncaught (Exception msg)
   \<and> run_single_instance iid n \<lparr>construct = Some (Exception msg), run = r\<rparr> =
       (Ended, [Starting iid, ErrorIn iid msg])
   \<and> run_single_instance iid n \<lparr>construct = None, run = Raises (Exception msg)\<rparr> =
       (Ended, [Starting iid, ErrorIn iid msg])
   \<and> run_single_instance iid n \<lparr>construct = None, run = Raises (NonException msg)\<rparr> =
       (Uncaught (NonException msg), [Starting iid])
   \<and> fst (main events) = (if KeyboardInterrupt \<in> set events then ShutDown else Looping)
   \<and> main_y envs interrupt =
       (if interrupt then ShutDown
        else if list_all (\<lambda>i. fst (run_single_instance i 4 (envs i)) \<noteq> Alive) [0, 1, 2, 3]
        then AllJoined else Looping)"
proof -
  note l = launch_4
  have a: "map_of (snd (run_instance iid a b env reg)) =
       (map_of reg)(iid \<mapsto> EnhancedInstanceCallback_init iid a b)"
    by (simp add: run_instance_def Let_def YOLOv11lDetectionApp_init_def update_conv'
        split: option.splits run_outcome.splits)
  have m: "main_y envs interrupt =
       (if interrupt then ShutDown
        else if list_all (\<lambda>i. fst (run_single_instance i 4 (envs i)) \<noteq> Alive) [0, 1, 2, 3]
        then AllJoined else Looping)"
    by (simp add: main_y_def Let_def l join_all_iff)
  have r: "fst (run_instance iid a b \<lparr>construct = Some (Exception msg), run = r\<rparr> reg) =
       (Ended, [Starting iid, ErrorIn iid msg])"
    "fst (run_instance iid a b \<lparr>construct = None, run = Raises (Exception msg)\<rparr> reg) =
       (Ended, [Starting iid, ErrorIn iid msg])"
    "fst (run_instance iid a b \<lparr>construct = None, run = Raises (NonException msg)\<rparr> reg) =
       (Uncaught (NonException msg), [Starting iid])"
    by (simp_all add: run_instance_def Let_def)
  have r': "run_single_instance iid n \<lparr>construct = Some (Exception msg), run = r\<rparr> =
       (Ended, [Starting iid, ErrorIn iid msg])"
    "run_single_instance iid n \<lparr>construct = None, run = Raises (Exception msg)\<rparr> =
       (Ended, [Starting iid, ErrorIn iid msg])"
    "run_single_instance iid n \<lparr>construct = None, run = Raises (NonException msg)\<rparr> =
       (Uncaught (NonException msg), [Starting iid])"
    by (simp_all add: run_single_instance_def)
  have h: "fst (main events) = (if KeyboardInterrupt \<in> set events then ShutDown else Looping)"
    by (simp add: main_def Let_def health_loop_state)
  from run_instance_caught [of iid a b env reg msg] r a
    run_single_instance_caught [of iid n env msg] r' h m
  show ?thesis by (intro conjI)
qed

text \<open>
  C7 as stated fails. In \<^verbatim>\<open>multi_instance_yolo11l.py\<close> four workers that are constructed
  and whose \<^verbatim>\<open>run\<close> returns normally, none failing, let every \<^verbatim>\<open>join\<close> return, and \<^verbatim>\<open>main\<close>
  ends with no Ctrl+C; with one worker failing and three running on, it keeps waiting.
  And a \<^verbatim>\<open>SystemExit\<close> raised by \<^verbatim>\<open>run\<close> is not caught by the runner.
\<close>

theorem all_workers_return_counterexample:
  "main_y ((!) [\<lparr>construct = None, run = Returns\<rparr>,
                \<lparr>construct = None, run = Returns\<rparr>,
                \<lparr>construct = None, run = Returns\<rparr>,
                \<lparr>construct = None, run = Returns\<rparr>]) False = AllJoined
   \<and> main_y ((!) [\<lparr>construct = Some (Exception ''no model''), run = RunsOn\<rparr>,
                \<lparr>construct = None, run = RunsOn\<rparr>,
                \<lparr>construct = None, run = RunsOn\<rparr>,
                \<lparr>construct = None, run = RunsOn\<rparr>]) False = Looping
   \<and> run_single_instance 0 4 \<lparr>construct = None, run = Raises (NonException ''SystemExit'')\<rparr> =
       (Uncaught (NonException ''SystemExit''), [Starting 0])"
  by (simp add: main_y_def launch_4 run_single_instance_def Let_def)

subsection \<open>Pipeline strings\<close>

lemma digit_char_in: "d < 10 \<Longrightarrow> digit_char d \<in> set ''0123456789''"
  unfolding digit_char_def by (rule nth_mem) simp

lemma str_nat_digits: "set (str_nat n) \<subseteq> set ''0123456789''"
proof (induction n rule: str_nat.induct)
  case (1 n)
  show ?case
  proof (cases "n < 10")
    case True
    then show ?thesis using digit_char_in [of n] by (subst str_nat.simps) simp
  next
    case False
    have "n mod 10 < 10" by simp
    from digit_char_in [OF this] "1.IH" [OF False] False
    show ?thesis by (subst str_nat.simps) simp
  qed
qed

lemma str_nat_not_Nil: "str_nat n \<noteq> []"
  by (subst str_nat.simps) simp

lemma digit_char_inj: "a < 10 \<Longrightarrow> b < 10 \<Longrightarrow> digit_char a = digit_char b \<Longrightarrow> a = b"
proof -
  assume a: "a < 10" and b: "b < 10" and eq: "digit_char a = digit_char b"
  have d: "distinct ''0123456789''" by simp
  from a b have "a < length ''0123456789''" "b < length ''0123456789''" by simp_all
  with d eq show "a = b" unfolding digit_char_def by (simp only: nth_eq_iff_index_eq)
qed

lemma str_nat_inj: "str_nat m = str_nat n \<Longrightarrow> m = n"
proof (induction m arbitrary: n rule: str_nat.induct)
  case (1 m)
  show ?case
  proof (cases "m < 10")
    case True
    then have m: "str_nat m = [digit_char m]" by (subst str_nat.simps) simp
    show ?thesis
    proof (cases "n < 10")
      case n: True
      then have "str_nat n = [digit_char n]" by (subst str_nat.simps) simp
      with m "1.prems" True n show ?thesis by (simp add: digit_char_inj)
    next
      case False
      then have "str_nat n = str_nat (n div 10) @ [digit_char (n mod 10)]"
        by (subst str_nat.simps) simp
      with m "1.prems" str_nat_not_Nil [of "n div 10"] show ?thesis by simp
    qed
  next
    case False
    then have m: "str_nat m = str_nat (m div 10) @ [digit_char (m mod 10)]"
      by (subst str_nat.simps) simp
    show ?thesis
    proof (cases "n < 10")
      case True
      then have "str_nat n = [digit_char n]" by (subst str_nat.simps) simp
      with m "1.prems" str_nat_not_Nil [of "m div 10"] show ?thesis by simp
    next
      case n: False
      then have "str_nat n = str_nat (n div 10) @ [digit_char (n mod 10)]"
        by (subst str_nat.simps) simp
      with m "1.prems" have eq: "str_nat (m div 10) = str_nat (n div 10)"
        and dg: "digit_char (m mod 10) = digit_char (n mod 10)" by simp_all
      from "1.IH" [OF False eq] have "m div 10 = n div 10" .
      moreover from dg have "m mod 10 = n mod 10" by (simp add: digit_char_inj)
      ultimately show ?thesis by (metis div_mult_mod_eq)
    qed
  qed
qed

text \<open>Occurrences and replacement.\<close>

lemma occurs_self: "occurs p (p @ r)"
proof (cases "p @ r")
  case Nil
  then show ?thesis by simp
next
  case (Cons a l)
  have "prefix p (p @ r)" by simp
  then show ?thesis unfolding Cons by simp
qed

lemma occurs_append_left: "occurs p r \<Longrightarrow> occurs p (u @ r)"
  by (induction u) simp_all

lemma occurs_skip:
  assumes "p \<noteq> []" and "hd p \<notin> set u"
  shows "occurs p (u @ r) = occurs p r"
  using assms by (induction u) (auto simp add: prefix_Cons neq_Nil_conv)

lemma prefix_str_replace:
  "old = h # old' \<Longrightarrow> new = h # new' \<Longrightarrow> h \<notin> set p \<Longrightarrow>
   prefix p (str_replace old new s) = prefix p s"
proof (induction old new s arbitrary: p rule: str_replace.induct)
  case (1 old new)
  then show ?case by simp
next
  case (2 old new c cs)
  from "2.prems" have ne: "old \<noteq> []" by simp
  show ?case
  proof (cases p)
    case Nil
    then show ?thesis by simp
  next
    case (Cons x p')
    with "2.prems" have x: "x \<noteq> h" and p': "h \<notin> set p'" by auto
    show ?thesis
    proof (cases "prefix old (c # cs)")
      case True
      with "2.prems" have "c = h" by simp
      with True x "2.prems" show ?thesis by (simp add: Cons)
    next
      case False
      from "2.IH"(3) [OF ne False "2.prems"(1,2) p'] False ne show ?thesis by (simp add: Cons)
    qed
  qed
qed

lemma occurs_str_replace_preserved:
  "old = h # old' \<Longrightarrow> new = h # new' \<Longrightarrow> p \<noteq> [] \<Longrightarrow> h \<notin> set p \<Longrightarrow>
   hd p \<notin> set old \<Longrightarrow> hd p \<notin> set new \<Longrightarrow>
   occurs p (str_replace old new s) = occurs p s"
proof (induction old new s rule: str_replace.induct)
  case (1 old new)
  then show ?case by simp
next
  case (2 old new c cs)
  note p = "2.prems"(3-6)
  from "2.prems" have ne: "old \<noteq> []" by simp
  show ?case
  proof (cases "prefix old (c # cs)")
    case True
    then have split: "c # cs = old @ drop (length old) (c # cs)"
      by (metis append_eq_conv_conj prefixE)
    have "occurs p (c # cs) = occurs p (drop (length old) (c # cs))"
      by (subst split) (rule occurs_skip [OF p(1) p(3)])
    moreover have "occurs p (str_replace old new (c # cs)) =
                   occurs p (str_replace old new (drop (length old) (c # cs)))"
      using True ne by (simp add: occurs_skip [OF p(1) p(4)])
    ultimately show ?thesis using "2.IH"(2) [OF ne True "2.prems"] by simp
  next
    case False
    have "prefix p (c # str_replace old new cs) = prefix p (c # cs)"
    proof (cases p)
      case Nil
      then show ?thesis by simp
    next
      case (Cons x p')
      with p(2) have "h \<notin> set p'" by simp
      from prefix_str_replace [OF "2.prems"(1,2) this] show ?thesis by (simp add: Cons)
    qed
    with "2.IH"(3) [OF ne False "2.prems"] False ne show ?thesis by simp
  qed
qed

lemma occurs_str_replace_new:
  "old \<noteq> [] \<Longrightarrow> occurs old s \<Longrightarrow> occurs new (str_replace old new s)"
proof (induction old new s rule: str_replace.induct)
  case (1 old new)
  then show ?case by simp
next
  case (2 old new c cs)
  note ne = "2.prems"(1)
  show ?case
  proof (cases "prefix old (c # cs)")
    case True
    then show ?thesis using ne by (simp add: occurs_self)
  next
    case False
    with "2.prems" have "occurs old cs" by simp
    from "2.IH"(3) [OF ne False ne this] have "occurs new (str_replace old new cs)" .
    then have "occurs new ([c] @ str_replace old new cs)" by (rule occurs_append_left)
    with False ne show ?thesis by simp
  qed
qed

lemma str_replace_removes:
  "old = h # old' \<Longrightarrow> new = h # new' \<Longrightarrow> h \<notin> set old' \<Longrightarrow>
   (\<And>r. \<not> occurs old r \<Longrightarrow> \<not> occurs old (new @ r)) \<Longrightarrow>
   \<not> occurs old (str_replace old new s)"
proof (induction old new s rule: str_replace.induct)
  case (1 old new)
  then show ?case by simp
next
  case (2 old new c cs)
  from "2.prems" have ne: "old \<noteq> []" by simp
  show ?case
  proof (cases "prefix old (c # cs)")
    case True
    have "\<not> occurs old (str_replace old new (drop (length old) (c # cs)))"
      by (rule "2.IH"(2) [OF ne True "2.prems"(1-3)]) (rule "2.prems"(4))
    from "2.prems"(4) [OF this] True ne show ?thesis by simp
  next
    case False
    have "\<not> occurs old (str_replace old new cs)"
      by (rule "2.IH"(3) [OF ne False "2.prems"(1-3)]) (rule "2.prems"(4))
    moreover have "prefix old (c # str_replace old new cs) = prefix old (c # cs)"
      using prefix_str_replace [OF "2.prems"(1,2,3)] by (simp add: "2.prems"(1))
    ultimately show ?thesis using False ne by simp
  qed
qed


text \<open>The two replacements of \<^verbatim>\<open>get_pipeline_string\<close>.\<close>

lemma f_not_digit: "CHR ''f'' \<notin> set (str_nat k)"
  using str_nat_digits [of k] by auto

lemma display_removed:
  "\<not> occurs ''fpsdisplaysink'' (str_replace ''fpsdisplaysink'' ''fakesink sync=false'' s)"
proof (rule str_replace_removes [of _ "CHR ''f''" "''psdisplaysink''" _ "''akesink sync=false''"])
  show "\<not> occurs ''fpsdisplaysink'' (''fakesink sync=false'' @ r)"
    if "\<not> occurs ''fpsdisplaysink'' r" for r
    using that by simp
qed simp_all

lemma hailonet_keeps_display:
  assumes "g = ''hailonet vdevice-group-id='' @ str_nat k @ '' ''"
  shows "occurs ''fpsdisplaysink'' (str_replace ''hailonet '' g s) = occurs ''fpsdisplaysink'' s"
  by (rule occurs_str_replace_preserved [of _ "CHR ''h''" "''ailonet ''" _
        "''ailonet vdevice-group-id='' @ str_nat k @ '' ''"])
     (simp_all add: assms f_not_digit)

lemma display_keeps_group_id:
  assumes "g = ''hailonet vdevice-group-id='' @ str_nat k @ '' ''"
  shows "occurs g (str_replace ''fpsdisplaysink'' ''fakesink sync=false'' s) = occurs g s"
  by (rule occurs_str_replace_preserved [of _ "CHR ''f''" "''psdisplaysink''" _
        "''akesink sync=false''"])
     (simp_all add: assms f_not_digit)

lemma get_pipeline_string_unfold:
  assumes "g = ''hailonet vdevice-group-id='' @ str_nat (vdevice_group_id i) @ '' ''"
  shows "get_pipeline_string base i =
     (if i > 0 then str_replace ''fpsdisplaysink'' ''fakesink sync=false''
                      (str_replace ''hailonet '' g base)
      else str_replace ''hailonet '' g base)"
  by (simp only: get_pipeline_string_def Let_def assms)

lemma get_pipeline_string_display:
  "occurs ''fpsdisplaysink'' (get_pipeline_string base i) =
     (i = 0 \<and> occurs ''fpsdisplaysink'' base)"
proof -
  define g where "g = ''hailonet vdevice-group-id='' @ str_nat (vdevice_group_id i) @ '' ''"
  show ?thesis
    unfolding get_pipeline_string_unfold [OF g_def]
    using display_removed [of "str_replace ''hailonet '' g base"]
      hailonet_keeps_display [OF g_def, of base]
    by (cases "i = 0") simp_all
qed

lemma get_pipeline_string_fakesink:
  assumes "0 < i" and "occurs ''fpsdisplaysink'' base"
  shows "occurs ''fakesink sync=false'' (get_pipeline_string base i)"
proof -
  define g where "g = ''hailonet vdevice-group-id='' @ str_nat (vdevice_group_id i) @ '' ''"
  have "occurs ''fpsdisplaysink'' (str_replace ''hailonet '' g base)"
    using assms(2) by (simp only: hailonet_keeps_display [OF g_def])
  then have "occurs ''fakesink sync=false''
      (str_replace ''fpsdisplaysink'' ''fakesink sync=false'' (str_replace ''hailonet '' g base))"
    by (intro occurs_str_replace_new) simp_all
  then show ?thesis
    unfolding get_pipeline_string_unfold [OF g_def] using assms(1) by simp
qed

lemma get_pipeline_string_group_id:
  assumes "occurs ''hailonet '' base"
  shows "occurs (''hailonet vdevice-group-id='' @ str_nat (vdevice_group_id i) @ '' '')
           (get_pipeline_string base i)"
proof -
  define g where "g = ''hailonet vdevice-group-id='' @ str_nat (vdevice_group_id i) @ '' ''"
  have "occurs g (str_replace ''hailonet '' g base)"
    using assms by (intro occurs_str_replace_new) simp_all
  then have "occurs g (get_pipeline_string base i)"
    unfolding get_pipeline_string_unfold [OF g_def]
    by (simp add: display_keeps_group_id [OF g_def])
  then show ?thesis by (simp only: g_def)
qed

lemma launch_Suc: "0 < n \<Longrightarrow> launch n = 0 # [1..<n]"
  by (simp add: launch_def upt_conv_Cons)

lemma vdevice_group_ids: "map vdevice_group_id (launch n) = [1..<Suc n]"
proof -
  have "vdevice_group_id = Suc" by (rule ext) (simp add: vdevice_group_id_def)
  then show ?thesis by (simp add: launch_def map_Suc_upt)
qed

lemma str_nat_small:
  "str_nat (Suc 0) = ''1''" "str_nat 1 = ''1''" "str_nat 3 = ''3''" "str_nat 4 = ''4''"
  by (subst str_nat.simps, simp add: digit_char_def)+

lemma occurs_iff: "occurs p s = (\<exists>u v. s = u @ p @ v)"
proof
  assume "occurs p s"
  then show "\<exists>u v. s = u @ p @ v"
  proof (induction s)
    case Nil
    then show ?case by simp
  next
    case (Cons c cs)
    show ?case
    proof (cases "prefix p (c # cs)")
      case True
      then obtain v where "c # cs = p @ v" by (auto simp add: prefix_def)
      then have "c # cs = [] @ p @ v" by simp
      then show ?thesis by blast
    next
      case False
      with Cons.prems have "occurs p cs" by simp
      from Cons.IH [OF this] obtain u v where "cs = u @ p @ v" by blast
      then have "c # cs = (c # u) @ p @ v" by simp
      then show ?thesis by blast
    qed
  qed
next
  assume "\<exists>u v. s = u @ p @ v"
  then obtain u v where "s = u @ p @ v" by blast
  then show "occurs p s" by (simp add: occurs_append_left occurs_self)
qed

lemma occurs_trans: "occurs a b \<Longrightarrow> occurs b c \<Longrightarrow> occurs a c"
proof -
  assume "occurs a b" and "occurs b c"
  then obtain u v u' v' where "b = u @ a @ v" and "c = u' @ b @ v'"
    unfolding occurs_iff by blast
  then have "c = (u' @ u) @ a @ (v @ v')" by simp
  then show "occurs a c" unfolding occurs_iff by blast
qed

lemma occurs_suffix: "suffix p s \<Longrightarrow> occurs p s"
  unfolding suffix_def occurs_iff by (metis append_Nil2)

lemma prefix_sep: "sep \<notin> set p \<Longrightarrow> prefix p (w @ sep # v) = prefix p w"
proof (induction w arbitrary: p)
  case Nil
  then show ?case by (cases p) auto
next
  case (Cons a w)
  then show ?case by (cases p) auto
qed

lemma occurs_sep:
  assumes "sep \<notin> set p" and "p \<noteq> []"
  shows "occurs p (u @ sep # v) = (occurs p u \<or> occurs p v)"
proof (induction u)
  case Nil
  from assms show ?case by (cases p) auto
next
  case (Cons a u)
  have "prefix p (a # u @ sep # v) = prefix p (a # u)"
    using prefix_sep [OF assms(1), of "a # u" v] by simp
  with Cons show ?case by auto
qed

text \<open>The display sink has no blank, so it lies within one element of a pipeline.\<close>

lemma display_bang:
  "occurs ''fpsdisplaysink'' (u @ '' ! '' @ v) =
     (occurs ''fpsdisplaysink'' u \<or> occurs ''fpsdisplaysink'' v)"
proof -
  have "u @ '' ! '' @ v = u @ CHR '' '' # (''!'' @ CHR '' '' # v)" by simp
  then show ?thesis by (simp only: occurs_sep) (simp add: occurs_sep)
qed

lemma display_blank:
  "occurs ''fpsdisplaysink'' (u @ '' '' @ v) =
     (occurs ''fpsdisplaysink'' u \<or> occurs ''fpsdisplaysink'' v)"
proof -
  have "u @ '' '' @ v = u @ CHR '' '' # v" by simp
  then show ?thesis by (simp add: occurs_sep)
qed

lemma branch_o_split:
  "branch_o h i =
     ''input_tee.'' @ '' ! '' @ QUEUE h (''queue_to_inference_'' @ str_nat i) @ '' ! '' @
     INFERENCE_PIPELINE h (''inference_'' @ str_nat i) (vdevice_group_id i) @ '' ! '' @
     USER_CALLBACK_PIPELINE h @ '' ! '' @ display_pipeline_o h i"
  by (simp add: branch_o_def)

lemma display_pipeline_o_split:
  "0 < i \<Longrightarrow> display_pipeline_o h i =
     QUEUE h (''sink_queue_'' @ str_nat i) @ '' ! '' @ ''fakesink sync=false''"
  by (simp add: display_pipeline_o_def)

lemma branch_o_display:
  "occurs ''fpsdisplaysink'' (branch_o h i) =
     (occurs ''fpsdisplaysink'' (QUEUE h (''queue_to_inference_'' @ str_nat i))
      \<or> occurs ''fpsdisplaysink'' (INFERENCE_PIPELINE h (''inference_'' @ str_nat i) (vdevice_group_id i))
      \<or> occurs ''fpsdisplaysink'' (USER_CALLBACK_PIPELINE h)
      \<or> (if i = 0 then occurs ''fpsdisplaysink'' (DISPLAY_PIPELINE h)
          else occurs ''fpsdisplaysink'' (QUEUE h (''sink_queue_'' @ str_nat i))))"
proof -
  have t: "\<not> occurs ''fpsdisplaysink'' ''input_tee.''"
     "\<not> occurs ''fpsdisplaysink'' ''fakesink sync=false''" by simp_all
  have d: "occurs ''fpsdisplaysink'' (display_pipeline_o h i) =
      (if i = 0 then occurs ''fpsdisplaysink'' (DISPLAY_PIPELINE h)
       else occurs ''fpsdisplaysink'' (QUEUE h (''sink_queue_'' @ str_nat i)))"
  proof (cases "i = 0")
    case True
    then show ?thesis by (simp add: display_pipeline_o_def)
  next
    case False
    then have "0 < i" by simp
    from display_pipeline_o_split [OF this, of h] False t(2) show ?thesis
      by (simp only: display_bang) simp
  qed
  show ?thesis
    by (simp only: branch_o_split display_bang t d) simp
qed

lemma join_space_concat:
  "join_space (x # xs) = x @ concat (map (\<lambda>y. '' '' @ y) xs)"
  by (induction xs arbitrary: x) simp_all

lemma pipeline_o_split:
  "create_single_source_multi_inference_pipeline h n =
     SOURCE_PIPELINE h ''main_source'' @ '' ! tee name=input_tee'' @
     concat (map (\<lambda>i. '' '' @ branch_o h i) (launch n))"
  by (simp add: create_single_source_multi_inference_pipeline_def join_space_concat
      launch_def comp_def)

lemma occurs_in_concat:
  "y \<in> set ys \<Longrightarrow> occurs (f y) (x @ concat (map (\<lambda>y. sp @ f y) ys))"
proof -
  assume "y \<in> set ys"
  then obtain us vs where "ys = us @ y # vs" by (auto simp add: in_set_conv_decomp)
  then have "x @ concat (map (\<lambda>y. sp @ f y) ys) =
      (x @ concat (map (\<lambda>y. sp @ f y) us) @ sp) @ f y @ concat (map (\<lambda>y. sp @ f y) vs)"
    by simp
  then show ?thesis unfolding occurs_iff by blast
qed

lemma branch_in_pipeline_o:
  assumes "i \<in> set (launch n)"
  shows "occurs (branch_o h i) (create_single_source_multi_inference_pipeline h n)"
proof -
  from occurs_in_concat [OF assms, of "branch_o h"
      "SOURCE_PIPELINE h ''main_source'' @ '' ! tee name=input_tee''" "'' ''"]
  show ?thesis by (simp add: pipeline_o_split)
qed


lemma str_nat_upto_4:
  "str_nat 0 = ''0''" "str_nat (Suc 0) = ''1''" "str_nat 1 = ''1''"
  "str_nat (Suc (Suc 0)) = ''2''" "str_nat 2 = ''2''" "str_nat 3 = ''3''" "str_nat 4 = ''4''"
  by (subst str_nat.simps, simp add: digit_char_def)+

lemma no_display_in_digits: "\<not> occurs ''fpsdisplaysink'' (str_nat k)"
proof
  assume "occurs ''fpsdisplaysink'' (str_nat k)"
  then obtain u v where "str_nat k = u @ ''fpsdisplaysink'' @ v" unfolding occurs_iff by blast
  then have "CHR ''f'' \<in> set (str_nat k)" by simp
  with f_not_digit show False by blast
qed

text \<open>
  C8. Let at least one worker be launched. In \<^verbatim>\<open>multi_instance_detection.py\<close>, when the
  parent's pipeline string contains the display sink \<^verbatim>\<open>fpsdisplaysink\<close>, exactly the
  string of worker 0 among those of the launched workers still contains it; in the
  string of every other worker no display sink is left and \<^verbatim>\<open>fakesink sync=false\<close> stands
  in its place. In \<^verbatim>\<open>multi_instance_detection_old.py\<close> the pipeline returned is the source
  with its tee followed by one branch per instance, in order; the branch of instance 0
  ends with the display pipeline and the branch of every other instance ends with
  \<^verbatim>\<open>fakesink sync=false\<close>. When the display pipeline of the helper library has the display
  sink and the queues, the inference pipelines and the callback pipeline it builds for
  these branches have none, exactly the branch of instance 0 contains a display sink,
  and the pipeline returned contains one.
\<close>

theorem one_display_worker:
  assumes "0 < n" and "occurs ''fpsdisplaysink'' base"
  shows "filter (\<lambda>i. occurs ''fpsdisplaysink'' (get_pipeline_string base i)) (launch n) = [0]
     \<and> (\<forall>i \<in> set (launch n). 0 < i \<longrightarrow>
           \<not> occurs ''fpsdisplaysink'' (get_pipeline_string base i)
           \<and> occurs ''fakesink sync=false'' (get_pipeline_string base i))
     \<and> display_pipeline_o h 0 = DISPLAY_PIPELINE h
     \<and> (\<forall>i \<in> set (launch n). 0 < i \<longrightarrow>
           suffix '' ! fakesink sync=false'' (display_pipeline_o h i))
     \<and> (\<forall>i \<in> set (launch n). suffix (display_pipeline_o h i) (branch_o h i))
     \<and> create_single_source_multi_inference_pipeline h n =
         SOURCE_PIPELINE h ''main_source'' @ '' ! tee name=input_tee'' @
         concat (map (\<lambda>i. '' '' @ branch_o h i) (launch n))
     \<and> (\<forall>i \<in> set (launch n). 0 < i \<longrightarrow> occurs ''fakesink sync=false'' (branch_o h i))
     \<and> (occurs ''fpsdisplaysink'' (DISPLAY_PIPELINE h)
         \<and> \<not> occurs ''fpsdisplaysink'' (USER_CALLBACK_PIPELINE h)
         \<and> (\<forall>i \<in> set (launch n).
               \<not> occurs ''fpsdisplaysink'' (QUEUE h (''queue_to_inference_'' @ str_nat i))
               \<and> \<not> occurs ''fpsdisplaysink'' (QUEUE h (''sink_queue_'' @ str_nat i))
               \<and> \<not> occurs ''fpsdisplaysink''
                     (INFERENCE_PIPELINE h (''inference_'' @ str_nat i) (vdevice_group_id i)))
         \<longrightarrow> filter (\<lambda>i. occurs ''fpsdisplaysink'' (branch_o h i)) (launch n) = [0]
             \<and> occurs ''fpsdisplaysink'' (create_single_source_multi_inference_pipeline h n))"
proof -
  have "filter (\<lambda>i. i = 0 \<and> occurs ''fpsdisplaysink'' base) [1..<n] = []"
    by (simp add: filter_empty_conv)
  then have a: "filter (\<lambda>i. occurs ''fpsdisplaysink'' (get_pipeline_string base i)) (launch n) = [0]"
    using assms by (simp add: launch_Suc get_pipeline_string_display)
  have b: "\<forall>i \<in> set (launch n). 0 < i \<longrightarrow>
           \<not> occurs ''fpsdisplaysink'' (get_pipeline_string base i)
           \<and> occurs ''fakesink sync=false'' (get_pipeline_string base i)"
    using assms(2) by (simp add: get_pipeline_string_display get_pipeline_string_fakesink)
  have c: "display_pipeline_o h 0 = DISPLAY_PIPELINE h" by (simp add: display_pipeline_o_def)
  have d: "\<forall>i \<in> set (launch n). 0 < i \<longrightarrow>
           suffix '' ! fakesink sync=false'' (display_pipeline_o h i)"
    by (simp add: display_pipeline_o_def suffix_def)
  have e: "\<forall>i \<in> set (launch n). suffix (display_pipeline_o h i) (branch_o h i)"
    unfolding branch_o_def suffix_def by (metis append.assoc)
  note f = pipeline_o_split [of h n]
  have g: "\<forall>i \<in> set (launch n). 0 < i \<longrightarrow> occurs ''fakesink sync=false'' (branch_o h i)"
  proof (intro ballI impI)
    fix i :: nat
    assume "0 < i"
    then have "suffix ''fakesink sync=false'' (display_pipeline_o h i)"
      by (simp add: display_pipeline_o_def suffix_def)
    moreover have "suffix (display_pipeline_o h i) (branch_o h i)"
      unfolding branch_o_def suffix_def by (metis append.assoc)
    ultimately have "suffix ''fakesink sync=false'' (branch_o h i)" by (rule suffix_order.trans)
    then show "occurs ''fakesink sync=false'' (branch_o h i)" by (rule occurs_suffix)
  qed
  have k: "filter (\<lambda>i. occurs ''fpsdisplaysink'' (branch_o h i)) (launch n) = [0]
             \<and> occurs ''fpsdisplaysink'' (create_single_source_multi_inference_pipeline h n)"
    if disp: "occurs ''fpsdisplaysink'' (DISPLAY_PIPELINE h)"
      and user: "\<not> occurs ''fpsdisplaysink'' (USER_CALLBACK_PIPELINE h)"
      and rest: "\<forall>i \<in> set (launch n).
               \<not> occurs ''fpsdisplaysink'' (QUEUE h (''queue_to_inference_'' @ str_nat i))
               \<and> \<not> occurs ''fpsdisplaysink'' (QUEUE h (''sink_queue_'' @ str_nat i))
               \<and> \<not> occurs ''fpsdisplaysink''
                     (INFERENCE_PIPELINE h (''inference_'' @ str_nat i) (vdevice_group_id i))"
  proof
    have each: "occurs ''fpsdisplaysink'' (branch_o h i) = (i = 0)" if "i \<in> set (launch n)" for i
      using rest that disp user by (simp add: branch_o_display)
    then have "filter (\<lambda>i. occurs ''fpsdisplaysink'' (branch_o h i)) (launch n) =
          filter (\<lambda>i. i = 0) (launch n)"
      by (intro filter_cong) simp_all
    also have "\<dots> = [0]"
      using assms(1) by (simp add: launch_Suc filter_empty_conv)
    finally show "filter (\<lambda>i. occurs ''fpsdisplaysink'' (branch_o h i)) (launch n) = [0]" .
    from assms(1) have zero: "0 \<in> set (launch n)" by (simp add: launch_def)
    from each [OF zero] have "occurs ''fpsdisplaysink'' (branch_o h 0)" by simp
    then show "occurs ''fpsdisplaysink'' (create_single_source_multi_inference_pipeline h n)"
      using branch_in_pipeline_o [OF zero, of h] by (rule occurs_trans)
  qed
  from a b c d e f g k show ?thesis by (intro conjI impI) blast+
qed

theorem one_display_worker_witness:
  "filter (\<lambda>i. occurs ''fpsdisplaysink'' (get_pipeline_string ''hailonet hef ! fpsdisplaysink'' i))
     (launch 4) = [0]
   \<and> get_pipeline_string ''hailonet hef ! fpsdisplaysink'' 0 =
       ''hailonet vdevice-group-id=1 hef ! fpsdisplaysink''
   \<and> get_pipeline_string ''hailonet hef ! fpsdisplaysink'' 3 =
       ''hailonet vdevice-group-id=4 hef ! fakesink sync=false''
   \<and> filter (\<lambda>i. occurs ''fpsdisplaysink''
         (branch_o \<lparr>SOURCE_PIPELINE = (\<lambda>name. ''v4l2src name='' @ name),
                    INFERENCE_PIPELINE = (\<lambda>name g. ''hailonet name='' @ name @
                                              '' vdevice-group-id='' @ str_nat g),
                    USER_CALLBACK_PIPELINE = ''identity'',
                    DISPLAY_PIPELINE = ''fpsdisplaysink'',
                    QUEUE = (\<lambda>name. ''queue name='' @ name)\<rparr> i)) (launch 4) = [0]
   \<and> occurs ''fpsdisplaysink''
        (create_single_source_multi_inference_pipeline
          \<lparr>SOURCE_PIPELINE = (\<lambda>name. ''v4l2src name='' @ name),
           INFERENCE_PIPELINE = (\<lambda>name g. ''hailonet name='' @ name @
                                     '' vdevice-group-id='' @ str_nat g),
           USER_CALLBACK_PIPELINE = ''identity'',
           DISPLAY_PIPELINE = ''fpsdisplaysink'',
           QUEUE = (\<lambda>name. ''queue name='' @ name)\<rparr> 4)
   \<and> create_single_source_multi_inference_pipeline
        \<lparr>SOURCE_PIPELINE = (\<lambda>name. ''v4l2src name='' @ name),
         INFERENCE_PIPELINE = (\<lambda>name g. ''hailonet name='' @ name @
                                   '' vdevice-group-id='' @ str_nat g),
         USER_CALLBACK_PIPELINE = ''identity'',
         DISPLAY_PIPELINE = ''fpsdisplaysink'',
         QUEUE = (\<lambda>name. ''queue name='' @ name)\<rparr> 2 =
      ''v4l2src name=main_source ! tee name=input_tee input_tee. ! queue name=queue_to_inference_0 ! hailonet name=inference_0 vdevice-group-id=1 ! identity ! fpsdisplaysink input_tee. ! queue name=queue_to_inference_1 ! hailonet name=inference_1 vdevice-group-id=2 ! identity ! queue name=sink_queue_1 ! fakesink sync=false''"
proof -
  define H where "H = \<lparr>SOURCE_PIPELINE = (\<lambda>name. ''v4l2src name='' @ name),
                    INFERENCE_PIPELINE = (\<lambda>name g. ''hailonet name='' @ name @
                                              '' vdevice-group-id='' @ str_nat g),
                    USER_CALLBACK_PIPELINE = ''identity'',
                    DISPLAY_PIPELINE = ''fpsdisplaysink'',
                    QUEUE = (\<lambda>name. ''queue name='' @ name)\<rparr>"
  have n: "0 < (4 :: nat)" by simp
  have b: "occurs ''fpsdisplaysink'' ''hailonet hef ! fpsdisplaysink''" by simp
  have g: "get_pipeline_string ''hailonet hef ! fpsdisplaysink'' 0 =
       ''hailonet vdevice-group-id=1 hef ! fpsdisplaysink''"
     "get_pipeline_string ''hailonet hef ! fpsdisplaysink'' 3 =
       ''hailonet vdevice-group-id=4 hef ! fakesink sync=false''"
    by (simp_all add: get_pipeline_string_def vdevice_group_id_def str_nat_upto_4 Let_def)
  have hyp: "occurs ''fpsdisplaysink'' (DISPLAY_PIPELINE H)
         \<and> \<not> occurs ''fpsdisplaysink'' (USER_CALLBACK_PIPELINE H)
         \<and> (\<forall>i \<in> set (launch 4).
               \<not> occurs ''fpsdisplaysink'' (QUEUE H (''queue_to_inference_'' @ str_nat i))
               \<and> \<not> occurs ''fpsdisplaysink'' (QUEUE H (''sink_queue_'' @ str_nat i))
               \<and> \<not> occurs ''fpsdisplaysink''
                     (INFERENCE_PIPELINE H (''inference_'' @ str_nat i) (vdevice_group_id i)))"
    by (simp add: H_def launch_4 vdevice_group_id_def str_nat_upto_4 no_display_in_digits)
  have two: "create_single_source_multi_inference_pipeline H 2 =
      ''v4l2src name=main_source ! tee name=input_tee input_tee. ! queue name=queue_to_inference_0 ! hailonet name=inference_0 vdevice-group-id=1 ! identity ! fpsdisplaysink input_tee. ! queue name=queue_to_inference_1 ! hailonet name=inference_1 vdevice-group-id=2 ! identity ! queue name=sink_queue_1 ! fakesink sync=false''"
    by (simp add: create_single_source_multi_inference_pipeline_def H_def branch_o_def
        display_pipeline_o_def vdevice_group_id_def str_nat_upto_4 upt_rec)
  from one_display_worker [OF n b, of H] hyp g two show ?thesis
    unfolding H_def by blast
qed

text \<open>
  C2. The workers launched are \<open>0, ..., n - 1\<close> and worker \<open>i\<close> gets the group id
  \<open>i + 1\<close>: the ids assigned are \<open>1, ..., n\<close>, pairwise distinct, \<open>n\<close> in number, and all
  within \<open>1 .. max_partitions\<close> when \<open>n \<le> max_partitions\<close>. Their decimal texts are pairwise
  distinct too, the pipeline string of worker \<open>i\<close> in \<^verbatim>\<open>multi_instance_detection.py\<close>
  carries \<^verbatim>\<open>vdevice-group-id=\<close>\<open>i + 1\<close> when the parent's string has a \<^verbatim>\<open>hailonet\<close> element,
  and the one of \<^verbatim>\<open>multi_instance_yolo11l.py\<close> contains the inference pipeline built for
  the group id \<open>i + 1\<close>.
\<close>

theorem distinct_partitions:
  assumes "n \<le> max_partitions" and "occurs ''hailonet '' base"
  shows "map vdevice_group_id (launch n) = [1..<Suc n]
     \<and> distinct (map vdevice_group_id (launch n))
     \<and> card (set (map vdevice_group_id (launch n))) = n
     \<and> set (map vdevice_group_id (launch n)) \<subseteq> {1..max_partitions}
     \<and> distinct (map (\<lambda>i. str_nat (vdevice_group_id i)) (launch n))
     \<and> (\<forall>i \<in> set (launch n).
          occurs (''hailonet vdevice-group-id='' @ str_nat (i + 1) @ '' '')
            (get_pipeline_string base i))
     \<and> (\<forall>i \<in> set (launch n).
          occurs (INFERENCE_PIPELINE h (''inference_'' @ str_nat i) (i + 1))
            (get_pipeline_string_y h i))"
proof -
  note ids = vdevice_group_ids [of n]
  have y: "\<forall>i \<in> set (launch n).
          occurs (INFERENCE_PIPELINE h (''inference_'' @ str_nat i) (i + 1))
            (get_pipeline_string_y h i)"
  proof
    fix i
    have "occurs (INFERENCE_PIPELINE h (''inference_'' @ str_nat i) (i + 1))
            ((SOURCE_PIPELINE h (''source_'' @ str_nat i) @ '' ! '') @
             INFERENCE_PIPELINE h (''inference_'' @ str_nat i) (i + 1) @
             ('' ! '' @ USER_CALLBACK_PIPELINE h @ '' ! '' @
              (if i = 0 then DISPLAY_PIPELINE h
               else QUEUE h (''sink_queue_'' @ str_nat i) @ '' ! fakesink sync=false'')))"
      by (intro occurs_append_left occurs_self)
    then show "occurs (INFERENCE_PIPELINE h (''inference_'' @ str_nat i) (i + 1))
            (get_pipeline_string_y h i)"
      by (simp add: get_pipeline_string_y_def vdevice_group_id_def Let_def)
  qed
  have d: "distinct (map vdevice_group_id (launch n))" unfolding ids by simp
  have "card (set [1..<Suc n]) = n" by (simp only: set_upt card_atLeastLessThan diff_Suc_1)
  then have c: "card (set (map vdevice_group_id (launch n))) = n" by (simp only: ids)
  have s: "set (map vdevice_group_id (launch n)) \<subseteq> {1..max_partitions}"
    unfolding ids using assms(1) by auto
  have "inj str_nat" by (rule injI) (rule str_nat_inj)
  then have "distinct (map str_nat (map vdevice_group_id (launch n)))"
    using d by (simp only: distinct_map) (auto intro: inj_on_subset)
  then have t: "distinct (map (\<lambda>i. str_nat (vdevice_group_id i)) (launch n))"
    by (simp add: comp_def)
  have g: "\<forall>i \<in> set (launch n).
          occurs (''hailonet vdevice-group-id='' @ str_nat (i + 1) @ '' '')
            (get_pipeline_string base i)"
  proof
    fix i
    from get_pipeline_string_group_id [OF assms(2), of i]
    show "occurs (''hailonet vdevice-group-id='' @ str_nat (i + 1) @ '' '')
            (get_pipeline_string base i)"
      by (simp only: vdevice_group_id_def)
  qed
  from ids d c s t g y show ?thesis by (intro conjI)
qed

theorem distinct_partitions_witness:
  "map vdevice_group_id (launch 4) = [1, 2, 3, 4]
   \<and> set (map vdevice_group_id (launch 4)) \<subseteq> {1..4}
   \<and> card (set (map vdevice_group_id (launch 4))) = 4
   \<and> occurs ''hailonet vdevice-group-id=3 '' (get_pipeline_string ''hailonet hef ! fpsdisplaysink'' 2)"
proof -
  have n: "(4 :: nat) \<le> 4" by simp
  have b: "occurs ''hailonet '' ''hailonet hef ! fpsdisplaysink''" by simp
  have l: "2 \<in> set (launch 4)" by (simp add: launch_def)
  have u: "[1..<Suc 4] = [1, 2, 3, 4]" by (simp add: upt_rec)
  from distinct_partitions [OF n b] have f:
    "map vdevice_group_id (launch 4) = [1..<Suc 4]"
    "set (map vdevice_group_id (launch 4)) \<subseteq> {1..4}"
    "card (set (map vdevice_group_id (launch 4))) = 4"
    "\<forall>i \<in> set (launch 4).
          occurs (''hailonet vdevice-group-id='' @ str_nat (i + 1) @ '' '')
            (get_pipeline_string ''hailonet hef ! fpsdisplaysink'' i)"
    by blast+
  from f(4) l have "occurs (''hailonet vdevice-group-id='' @ str_nat (2 + 1) @ '' '')
            (get_pipeline_string ''hailonet hef ! fpsdisplaysink'' 2)" by blast
  then have "occurs ''hailonet vdevice-group-id=3 '' (get_pipeline_string ''hailonet hef ! fpsdisplaysink'' 2)"
    by (simp add: str_nat_small)
  with f(1-3) show ?thesis by (simp only: u)
qed

end
